theory Spec2Isabelle
  imports Main "HOL-Library.Sublist"
begin

section \<open>Characters and strings of the scraper\<close>

text \<open>
  The scraper (\<^verbatim>\<open>ecourts_scraper.py\<close>) works on Python \<^verbatim>\<open>str\<close> values. A string is
  modelled as a \<^typ>\<open>string\<close>, each \<^typ>\<open>char\<close> read as the code point of the same
  number (0 to 255). On these code points the classes below are the ones Python uses:
  \<^verbatim>\<open>str.isspace\<close> and the pattern class \<^verbatim>\<open>\s\<close> hold of 9 to 13, 28 to 32, 133 and 160;
  \<^verbatim>\<open>\d\<close> holds of the ten ASCII digits; \<^verbatim>\<open>\w\<close> holds of the ASCII letters and digits,
  the underscore and the Latin-1 letters and numerals; \<^verbatim>\<open>str.lower\<close> adds 32 to the ASCII
  capitals and to the Latin-1 capitals 192 to 222 (215 apart).
\<close>

definition ord :: "char \<Rightarrow> int" where
  "ord c = of_char c"

definition py_isspace :: "char \<Rightarrow> bool" where
  "py_isspace c = (let n = ord c in (9 \<le> n \<and> n \<le> 13) \<or> (28 \<le> n \<and> n \<le> 32) \<or> n = 133 \<or> n = 160)"

definition is_digit :: "char \<Rightarrow> bool" where
  "is_digit c = (let n = ord c in 48 \<le> n \<and> n \<le> 57)"

definition is_upper_az :: "char \<Rightarrow> bool" where
  "is_upper_az c = (let n = ord c in 65 \<le> n \<and> n \<le> 90)"

definition is_lower_az :: "char \<Rightarrow> bool" where
  "is_lower_az c = (let n = ord c in 97 \<le> n \<and> n \<le> 122)"

definition is_alpha :: "char \<Rightarrow> bool" where
  "is_alpha c = (is_upper_az c \<or> is_lower_az c)"

definition is_alnum :: "char \<Rightarrow> bool" where
  "is_alnum c = (is_alpha c \<or> is_digit c)"

definition is_word :: "char \<Rightarrow> bool" where
  "is_word c = (let n = ord c in
     is_alnum c \<or> n = 95 \<or> n = 170 \<or> n = 178 \<or> n = 179 \<or> n = 181 \<or> n = 185 \<or> n = 186
     \<or> (188 \<le> n \<and> n \<le> 190) \<or> (192 \<le> n \<and> n \<le> 214) \<or> (216 \<le> n \<and> n \<le> 246) \<or> 248 \<le> n)"

definition py_lower_char :: "char \<Rightarrow> char" where
  "py_lower_char c = (let n = ord c in
     if (65 \<le> n \<and> n \<le> 90) \<or> (192 \<le> n \<and> n \<le> 222 \<and> n \<noteq> 215) then char_of (n + 32) else c)"

definition py_lower :: "string \<Rightarrow> string" where
  "py_lower s = map py_lower_char s"

definition py_strip :: "string \<Rightarrow> string" where
  "py_strip s = rev (dropWhile py_isspace (rev (dropWhile py_isspace s)))"

fun py_join :: "string \<Rightarrow> string list \<Rightarrow> string" where
  "py_join sep [] = []"
| "py_join sep [x] = x"
| "py_join sep (x # y # ys) = x @ sep @ py_join sep (y # ys)"

definition py_slice :: "nat \<Rightarrow> nat \<Rightarrow> 'a list \<Rightarrow> 'a list" where
  "py_slice a b xs = take (b - a) (drop a xs)"

fun py_contains :: "string \<Rightarrow> string \<Rightarrow> bool" where
  "py_contains k [] = (k = [])"
| "py_contains k (c # cs) = (prefix k (c # cs) \<or> py_contains k cs)"

section \<open>Regular expressions as the source uses them\<close>

text \<open>
  The patterns of the source are sequences, alternatives and groups over character
  classes with greedy counted repetition, and the word boundary \<^verbatim>\<open>\b\<close>. A class with a
  count is \<open>Cls p lo hi\<close> (\<open>hi = None\<close>: no upper bound), so \<^verbatim>\<open>\s*\<close> is
  \<open>Cls py_isspace 0 None\<close> and \<^verbatim>\<open>\d{1,4}\<close> is \<open>Cls is_digit 1 (Some 4)\<close>.

  \<open>rmatch r t (i, c)\<close> lists, in the order in which Python's backtracking matcher tries
  them, the positions where a match of \<open>r\<close> that starts at position \<open>i\<close> of \<open>t\<close> can end,
  each with the spans of the groups closed so far: a greedy repetition offers its longest
  run first, an alternative its left branch first. The head of the list is the match that
  \<^verbatim>\<open>re\<close> reports.
\<close>

datatype re =
    Cls "char \<Rightarrow> bool" nat "nat option"
  | Cat re re
  | Or re re
  | Eps
  | Grp nat re
  | Bnd

type_synonym caps = "(nat \<times> nat \<times> nat) list"

definition at_boundary :: "string \<Rightarrow> nat \<Rightarrow> bool" where
  "at_boundary t i =
     ((0 < i \<and> i \<le> length t \<and> is_word (t ! (i - 1))) \<noteq> (i < length t \<and> is_word (t ! i)))"

fun rmatch :: "re \<Rightarrow> string \<Rightarrow> nat \<times> caps \<Rightarrow> (nat \<times> caps) list" where
  "rmatch (Cls p lo hi) t (i, c) =
     (let n = length (takeWhile p (drop i t));
          m = (case hi of None \<Rightarrow> n | Some h \<Rightarrow> min n h)
      in map (\<lambda>k. (i + k, c)) (rev [lo..<Suc m]))"
| "rmatch (Cat a b) t st = concat (map (rmatch b t) (rmatch a t st))"
| "rmatch (Or a b) t st = rmatch a t st @ rmatch b t st"
| "rmatch Eps t st = [st]"
| "rmatch (Grp g r) t (i, c) = map (\<lambda>(j, c'). (j, (g, i, j) # c')) (rmatch r t (i, c))"
| "rmatch Bnd t (i, c) = (if at_boundary t i then [(i, c)] else [])"

text \<open>A match object: \<^verbatim>\<open>m.start()\<close>, \<^verbatim>\<open>m.end()\<close> and the spans of its groups.\<close>

record rematch =
  m_start :: nat
  m_end :: nat
  m_caps :: caps

text \<open>
  \<^verbatim>\<open>m.group(g)\<close>. Every pattern of the source has its groups outside any optional part,
  so a group takes part in every match (\<open>group_takes_part\<close> below) and the value is
  never Python's \<^verbatim>\<open>None\<close>.
\<close>

definition group :: "string \<Rightarrow> rematch \<Rightarrow> nat \<Rightarrow> string" where
  "group t m g = (case map_of (m_caps m) g of Some (a, b) \<Rightarrow> py_slice a b t | None \<Rightarrow> [])"

text \<open>
  One attempt at start position \<open>i\<close>. With \<open>adv\<close> set the attempt refuses the empty match
  (the scanner's rule after an empty match, so that \<^verbatim>\<open>finditer\<close> and \<^verbatim>\<open>sub\<close> move on).
\<close>

definition match_at :: "re \<Rightarrow> string \<Rightarrow> nat \<Rightarrow> bool \<Rightarrow> rematch option" where
  "match_at r t i adv =
     (case filter (\<lambda>(j, c). \<not> (adv \<and> j = i)) (rmatch r t (i, [])) of
        [] \<Rightarrow> None
      | (j, c) # _ \<Rightarrow> Some \<lparr>m_start = i, m_end = j, m_caps = c\<rparr>)"

fun first_some :: "('a \<Rightarrow> 'b option) \<Rightarrow> 'a list \<Rightarrow> 'b option" where
  "first_some f [] = None"
| "first_some f (x # xs) = (case f x of Some y \<Rightarrow> Some y | None \<Rightarrow> first_some f xs)"

definition re_search_from :: "re \<Rightarrow> string \<Rightarrow> nat \<Rightarrow> bool \<Rightarrow> rematch option" where
  "re_search_from r t pos adv =
     first_some (\<lambda>i. match_at r t i (adv \<and> i = pos)) [pos..<Suc (length t)]"

text \<open>\<^verbatim>\<open>re.search\<close>, \<^verbatim>\<open>re.match\<close> and \<^verbatim>\<open>re.fullmatch\<close>.\<close>

definition re_search :: "re \<Rightarrow> string \<Rightarrow> rematch option" where
  "re_search r t = re_search_from r t 0 False"

definition re_match :: "re \<Rightarrow> string \<Rightarrow> rematch option" where
  "re_match r t = match_at r t 0 False"

definition re_fullmatch :: "re \<Rightarrow> string \<Rightarrow> rematch option" where
  "re_fullmatch r t =
     (case filter (\<lambda>(j, c). j = length t) (rmatch r t (0, [])) of
        [] \<Rightarrow> None
      | (j, c) # _ \<Rightarrow> Some \<lparr>m_start = 0, m_end = j, m_caps = c\<rparr>)"

lemma rmatch_bounds:
  "(j, c') \<in> set (rmatch r t (i, c)) \<Longrightarrow> i \<le> j \<and> (i \<le> length t \<longrightarrow> j \<le> length t)"
proof (induction r arbitrary: i c j c')
  case (Cls p lo hi)
  have "length (takeWhile p (drop i t)) \<le> length t - i"
    using length_takeWhile_le [of p "drop i t"] by simp
  with Cls show ?case
    by (auto simp: Let_def simp del: upt_Suc split: option.splits)
next
  case (Cat a b)
  from Cat.prems obtain k ck where 1: "(k, ck) \<in> set (rmatch a t (i, c))"
    and 2: "(j, c') \<in> set (rmatch b t (k, ck))"
    by auto
  from Cat.IH(1) [OF 1] Cat.IH(2) [OF 2] show ?case by auto
next
  case (Or a b)
  then show ?case by auto
next
  case Eps
  then show ?case by simp
next
  case (Grp g r)
  then show ?case by auto
next
  case Bnd
  then show ?case by (simp split: if_splits)
qed

lemma first_some_upt:
  "first_some f [a..<b] = Some y \<Longrightarrow> \<exists>i. a \<le> i \<and> i < b \<and> f i = Some y"
proof (induction "b - a" arbitrary: a)
  case 0
  then show ?case by simp
next
  case (Suc n)
  then have ab: "a < b" by simp
  then have eq: "[a..<b] = a # [Suc a..<b]" by (simp add: upt_conv_Cons)
  show ?case
  proof (cases "f a")
    case None
    with Suc.prems eq have "first_some f [Suc a..<b] = Some y" by simp
    moreover from Suc.hyps(2) have "n = b - Suc a" by simp
    ultimately obtain i where "Suc a \<le> i" "i < b" "f i = Some y"
      using Suc.hyps(1) by blast
    then show ?thesis by (intro exI [of _ i]) simp
  next
    case (Some z)
    with Suc.prems eq have "z = y" by simp
    with Some ab show ?thesis by (intro exI [of _ a]) simp
  qed
qed

lemma match_at_SomeD:
  assumes "match_at r t i adv = Some m"
  shows "m_start m = i \<and> (m_end m, m_caps m) \<in> set (rmatch r t (i, [])) \<and> \<not> (adv \<and> m_end m = i)"
proof (cases "filter (\<lambda>(j, c). \<not> (adv \<and> j = i)) (rmatch r t (i, []))")
  case Nil
  with assms show ?thesis by (simp add: match_at_def)
next
  case (Cons x xs)
  obtain j c where x: "x = (j, c)" by (cases x)
  from Cons x assms have m: "m = \<lparr>m_start = i, m_end = j, m_caps = c\<rparr>"
    by (simp add: match_at_def)
  have "(j, c) \<in> set (filter (\<lambda>(j, c). \<not> (adv \<and> j = i)) (rmatch r t (i, [])))"
    unfolding Cons x by simp
  then have "(j, c) \<in> set (rmatch r t (i, []))" "\<not> (adv \<and> j = i)"
    by simp_all
  with m show ?thesis by simp
qed

lemma re_search_from_bounds:
  assumes "re_search_from r t pos adv = Some m"
  shows "pos \<le> m_start m \<and> m_start m \<le> m_end m \<and> m_end m \<le> length t
         \<and> (adv \<and> m_start m = pos \<longrightarrow> m_end m \<noteq> m_start m)"
proof -
  from assms have "first_some (\<lambda>i. match_at r t i (adv \<and> i = pos)) [pos..<Suc (length t)] = Some m"
    by (simp only: re_search_from_def)
  from first_some_upt [OF this] obtain i where i: "pos \<le> i" "i < Suc (length t)"
      and m: "match_at r t i (adv \<and> i = pos) = Some m"
    by blast
  from match_at_SomeD [OF m] have s: "m_start m = i"
    and mem: "(m_end m, m_caps m) \<in> set (rmatch r t (i, []))"
    and na: "\<not> ((adv \<and> i = pos) \<and> m_end m = i)"
    by simp_all
  from rmatch_bounds [OF mem] i have "i \<le> m_end m" "m_end m \<le> length t" by simp_all
  with i s na show ?thesis by auto
qed

text \<open>
  \<^verbatim>\<open>re.finditer\<close>: the matches from left to right, none overlapping another. The scan
  resumes where the last match ended; after an empty match it refuses a second empty
  match at the same place.
\<close>

function re_finditer_from :: "re \<Rightarrow> string \<Rightarrow> nat \<Rightarrow> bool \<Rightarrow> rematch list" where
  "re_finditer_from r t pos adv =
     (case re_search_from r t pos adv of
        None \<Rightarrow> []
      | Some m \<Rightarrow> m # re_finditer_from r t (m_end m) (m_end m = m_start m))"
  by pat_completeness auto
termination
proof (relation "measure (\<lambda>(r, t, pos, adv). 2 * (Suc (length t) - pos) + (if adv then 0 else 1))")
  show "wf (measure (\<lambda>(r, t, pos, adv). 2 * (Suc (length t) - pos) + (if adv then 0 else 1)))"
    by simp
next
  fix r t pos adv m
  assume "re_search_from r t pos adv = Some m"
  from re_search_from_bounds [OF this]
  show "((r, t, m_end m, m_end m = m_start m), (r, t, pos, adv))
        \<in> measure (\<lambda>(r, t, pos, adv). 2 * (Suc (length t) - pos) + (if adv then 0 else 1))"
    by (auto split: if_splits)
qed

declare re_finditer_from.simps [simp del]

definition re_finditer :: "re \<Rightarrow> string \<Rightarrow> rematch list" where
  "re_finditer r t = re_finditer_from r t 0 False"

text \<open>\<^verbatim>\<open>re.sub(r, repl, t)\<close>: the text between the matches, each match replaced.\<close>

fun sub_pieces :: "string \<Rightarrow> string \<Rightarrow> nat \<Rightarrow> rematch list \<Rightarrow> string" where
  "sub_pieces repl t pos [] = drop pos t"
| "sub_pieces repl t pos (m # ms) =
     py_slice pos (m_start m) t @ repl @ sub_pieces repl t (m_end m) ms"

definition re_sub :: "re \<Rightarrow> string \<Rightarrow> string \<Rightarrow> string" where
  "re_sub r repl t = sub_pieces repl t 0 (re_finditer r t)"

text \<open>Pattern building blocks; \<open>chr_ci\<close> and \<open>lit_ci\<close> are literals under \<^verbatim>\<open>re.I\<close>.\<close>

definition chr :: "char \<Rightarrow> re" where
  "chr c = Cls (\<lambda>x. x = c) 1 (Some 1)"

definition chr_ci :: "char \<Rightarrow> re" where
  "chr_ci c = Cls (\<lambda>x. py_lower_char x = py_lower_char c) 1 (Some 1)"

definition lit_ci :: "string \<Rightarrow> re" where
  "lit_ci s = foldr (\<lambda>c r. Cat (chr_ci c) r) s Eps"

definition cat :: "re list \<Rightarrow> re" where
  "cat rs = foldr Cat rs Eps"

definition star :: "(char \<Rightarrow> bool) \<Rightarrow> re" where
  "star p = Cls p 0 None"

definition plus :: "(char \<Rightarrow> bool) \<Rightarrow> re" where
  "plus p = Cls p 1 None"

definition opt :: "(char \<Rightarrow> bool) \<Rightarrow> re" where
  "opt p = Cls p 0 (Some 1)"

definition is_sep :: "char \<Rightarrow> bool" where
  "is_sep c = (c = CHR '':'' \<or> c = CHR ''-'')"

definition is_dot :: "char \<Rightarrow> bool" where
  "is_dot c = (c = CHR ''.'')"

section \<open>Parsing helpers\<close>

subsection \<open>The case status page\<close>

record hearing =
  h_date :: string
  h_purpose :: "string option"

record case_overview =
  cnr :: "string option"
  case_number :: "string option"
  court_name :: "string option"
  hearings :: "hearing list"

text \<open>
  The patterns of \<^verbatim>\<open>parse_case_status_html\<close>. All but the date pattern are compiled with
  \<^verbatim>\<open>re.I\<close>: a literal letter matches either case, and so does a class of letters, which
  on the code points of the model makes \<^verbatim>\<open>[A-Z0-9]\<close> the class of the letters a to z, A to Z
  and the digits.
\<close>

definition is_case_no_chr :: "char \<Rightarrow> bool" where
  "is_case_no_chr c = (is_alpha c \<or> c = CHR ''.'' \<or> c = CHR ''/'' \<or> c = CHR ''-'' \<or> py_isspace c)"

definition CASE_NO_RE :: re where
  "CASE_NO_RE = cat
     [Grp 1 (Or (cat [lit_ci ''Case'', star py_isspace, lit_ci ''No'', opt is_dot])
                (cat [lit_ci ''Case'', star py_isspace, lit_ci ''Number''])),
      star py_isspace, opt is_sep, star py_isspace,
      Grp 2 (cat [star is_case_no_chr, plus is_digit, chr CHR ''/'', Cls is_digit 4 (Some 4)])]"

definition CNR_RE :: re where
  "CNR_RE = cat
     [Grp 1 (cat [lit_ci ''CNR'', star py_isspace, lit_ci ''No'', opt is_dot]),
      star py_isspace, opt is_sep, star py_isspace,
      Grp 2 (Cls is_alnum 16 (Some 16))]"

definition is_not_newline :: "char \<Rightarrow> bool" where
  "is_not_newline c = (c \<noteq> CHR 0x0A \<and> c \<noteq> CHR 0x0D)"

definition COURT_RE :: re where
  "COURT_RE = cat
     [Grp 1 (Or (cat [lit_ci ''Court'', star py_isspace, lit_ci ''Name'']) (lit_ci ''Court'')),
      star py_isspace, opt is_sep, star py_isspace,
      Grp 2 (plus is_not_newline)]"

definition DATE_RE :: re where
  "DATE_RE = Grp 1 (cat
     [Cls is_digit 2 (Some 2), chr CHR ''-'', Cls is_digit 2 (Some 2), chr CHR ''-'',
      Cls is_digit 4 (Some 4)])"

definition is_purpose_chr :: "char \<Rightarrow> bool" where
  "is_purpose_chr c = (is_alnum c \<or> c \<in> set '' ,./()_-'')"

definition PURPOSE_RE :: re where
  "PURPOSE_RE = cat
     [Grp 1 (Or (lit_ci ''Purpose'') (lit_ci ''Stage'')),
      star py_isspace, opt is_sep, star py_isspace,
      Grp 2 (Cls is_purpose_chr 3 (Some 60))]"

text \<open>
  The body of the loop over the date matches (lines 105 to 114): the window around the
  match, the search for a purpose in it, the entry. The subtraction is that of the
  natural numbers, which stops at 0 as \<^verbatim>\<open>max(dt_match.start() - 60, 0)\<close> does.
\<close>

definition find_purpose :: "string \<Rightarrow> string option" where
  "find_purpose window =
     (case re_search PURPOSE_RE window of
        None \<Rightarrow> None
      | Some m2 \<Rightarrow> Some (py_strip (group window m2 2)))"

definition hearing_window :: "string \<Rightarrow> rematch \<Rightarrow> string" where
  "hearing_window text dt_match =
     (let span_start = m_start dt_match - 60;
          span_end = min (m_end dt_match + 80) (length text)
      in py_slice span_start span_end text)"

definition hearing_entry :: "string \<Rightarrow> rematch \<Rightarrow> hearing" where
  "hearing_entry text dt_match =
     \<lparr>h_date = group text dt_match 1,
      h_purpose = find_purpose (hearing_window text dt_match)\<rparr>"

text \<open>
  \<^verbatim>\<open>parse_case_status_html\<close>, from the flattened page text on: the argument is the value
  of \<^verbatim>\<open>soup.get_text(" ", strip=True)\<close>, which the parser library computes.
\<close>

definition parse_case_status_html :: "string \<Rightarrow> case_overview" where
  "parse_case_status_html text =
     \<lparr>cnr = (case re_search CNR_RE text of
               None \<Rightarrow> None | Some m \<Rightarrow> Some (py_strip (group text m 2))),
      case_number = (case re_search CASE_NO_RE text of
               None \<Rightarrow> None | Some m \<Rightarrow> Some (py_strip (group text m 2))),
      court_name = (case re_search COURT_RE text of
               None \<Rightarrow> None | Some m \<Rightarrow> Some (py_strip (group text m 2))),
      hearings = map (hearing_entry text) (re_finditer DATE_RE text)\<rparr>"

subsection \<open>The cause list page\<close>

record schedule_row =
  serial :: string
  case_text :: "string option"
  purpose :: "string option"
  court_info :: "string option"
  raw_cells :: "string list"

datatype py_error = IndexError

definition py_index :: "'a list \<Rightarrow> nat \<Rightarrow> py_error + 'a" where
  "py_index xs i = (if i < length xs then Inr (xs ! i) else Inl IndexError)"

definition SERIAL_RE :: re where
  "SERIAL_RE = Cls is_digit 1 (Some 4)"

definition HEADER_RE :: re where
  "HEADER_RE = Grp 1 (Or (cat [lit_ci ''sr'', opt is_dot, star py_isspace, lit_ci ''no'', opt is_dot])
                         (lit_ci ''serial''))"

definition CASE_TEXT_A_RE :: re where
  "CASE_TEXT_A_RE = cat [Bnd, Cls is_digit 1 (Some 6), chr CHR ''/'', Cls is_digit 4 (Some 4), Bnd]"

definition CASE_TEXT_B_RE :: re where
  "CASE_TEXT_B_RE = cat
     [Cls is_alpha 1 (Some 10), star py_isspace, Cls is_digit 1 (Some 6), chr CHR ''/'',
      Cls is_digit 4 (Some 4)]"

definition PURPOSE_CELL_RE :: re where
  "PURPOSE_CELL_RE = Grp 1 (Or (lit_ci ''purpose'') (Or (lit_ci ''stage'')
                           (Or (lit_ci ''for hearing'') (lit_ci ''listing''))))"

definition COURT_CELL_RE :: re where
  "COURT_CELL_RE = cat [Bnd, lit_ci ''Court'', Bnd]"

text \<open>The dictionary appended for a row with a serial (lines 149 to 175).\<close>

definition row_of :: "string \<Rightarrow> string list \<Rightarrow> schedule_row" where
  "row_of serial_no tds =
     \<lparr>serial = serial_no,
      case_text = find (\<lambda>cell. re_search CASE_TEXT_A_RE cell \<noteq> None
                              \<or> re_search CASE_TEXT_B_RE cell \<noteq> None) (py_slice 1 4 tds),
      purpose = find (\<lambda>cell. re_search PURPOSE_CELL_RE cell \<noteq> None) tds,
      court_info = find (\<lambda>cell. re_search COURT_CELL_RE cell \<noteq> None) tds,
      raw_cells = tds\<rparr>"

text \<open>
  One \<^verbatim>\<open>tr\<close> (lines 136 to 175): \<open>Inr None\<close> when the row is passed over, \<open>Inr (Some row)\<close>
  when a dictionary is appended, \<open>Inl\<close> where the read \<^verbatim>\<open>tds[0]\<close> would raise. The source
  reads \<^verbatim>\<open>tds[0]\<close> up to three times; the reads agree, so the model reads once.
\<close>

definition parse_row :: "string list \<Rightarrow> py_error + schedule_row option" where
  "parse_row tds =
     (if tds = [] \<or> length tds < 2 then Inr None
      else case py_index tds 0 of
             Inl e \<Rightarrow> Inl e
           | Inr first \<Rightarrow>
               (case re_fullmatch SERIAL_RE first of
                  Some m \<Rightarrow> if first \<noteq> [] then Inr (Some (row_of first tds)) else Inr None
                | None \<Rightarrow>
                    (case re_match HEADER_RE first of
                       Some m \<Rightarrow> Inr None
                     | None \<Rightarrow> Inr None)))"

fun parse_trs :: "string list list \<Rightarrow> schedule_row list \<Rightarrow> py_error + schedule_row list" where
  "parse_trs [] rows = Inr rows"
| "parse_trs (tds # trs) rows =
     (case parse_row tds of
        Inl e \<Rightarrow> Inl e
      | Inr None \<Rightarrow> parse_trs trs rows
      | Inr (Some row) \<Rightarrow> parse_trs trs (rows @ [row]))"

fun parse_tables :: "string list list list \<Rightarrow> schedule_row list \<Rightarrow> py_error + schedule_row list" where
  "parse_tables [] rows = Inr rows"
| "parse_tables (table # tables) rows =
     (case parse_trs table rows of
        Inl e \<Rightarrow> Inl e
      | Inr rows' \<Rightarrow> parse_tables tables rows')"

text \<open>
  \<^verbatim>\<open>parse_cause_list_html\<close>, from the parsed page on: the argument lists, for each table
  that \<^verbatim>\<open>soup.find_all("table")\<close> returns, the rows that \<^verbatim>\<open>table.find_all("tr")\<close> returns,
  each row as the texts of its \<^verbatim>\<open>td\<close> and \<^verbatim>\<open>th\<close> cells. A page without a table is \<open>[]\<close>.
\<close>

definition parse_cause_list_html :: "string list list list \<Rightarrow> py_error + schedule_row list" where
  "parse_cause_list_html tables = parse_tables tables []"

subsection \<open>Finding the case in the cause list\<close>

definition WS_RE :: re where
  "WS_RE = plus py_isspace"

text \<open>
  \<^verbatim>\<open>e.get("raw_cells") or []\<close> is the list of cells itself: the parser stores a list under
  that key in every row, and an empty list is replaced by an empty list.
\<close>

definition key_norm_of :: "string \<Rightarrow> string" where
  "key_norm_of case_key = py_lower (py_strip (re_sub WS_RE '' '' case_key))"

definition big_text_norm_of :: "schedule_row \<Rightarrow> string" where
  "big_text_norm_of e = py_lower (py_strip (re_sub WS_RE '' '' (py_join '' '' (raw_cells e))))"

fun find_case_loop :: "string \<Rightarrow> schedule_row list \<Rightarrow> schedule_row option" where
  "find_case_loop key_norm [] = None"
| "find_case_loop key_norm (e # es) =
     (if py_contains key_norm (big_text_norm_of e) then Some e else find_case_loop key_norm es)"

definition find_case_in_cause_list :: "schedule_row list \<Rightarrow> string \<Rightarrow> schedule_row option" where
  "find_case_in_cause_list entries case_key = find_case_loop (key_norm_of case_key) entries"

section \<open>Decision helpers: listed today, listed tomorrow\<close>

text \<open>
  The clock: \<open>clock\<close> is a reading of \<^verbatim>\<open>datetime.utcnow()\<close> in whole seconds since
  1970-01-01 00:00 UTC (the readings the library can represent end with the year 9999).
  \<open>civil_from_days\<close> is the calendar date of a day number, as \<^verbatim>\<open>date\<close> arithmetic gives it.
\<close>

definition today_ist :: "int \<Rightarrow> int" where
  "today_ist clock = clock + (5 * 3600 + 30 * 60)"

definition civil_from_days :: "int \<Rightarrow> int \<times> int \<times> int" where
  "civil_from_days z0 =
     (let z = z0 + 719468;
          era = z div 146097;
          doe = z - era * 146097;
          yoe = (doe - doe div 1460 + doe div 36524 - doe div 146096) div 365;
          y = yoe + era * 400;
          doy = doe - (365 * yoe + yoe div 4 - yoe div 100);
          mp = (5 * doy + 2) div 153;
          d = doy - (153 * mp + 2) div 5 + 1;
          m = (if mp < 10 then mp + 3 else mp - 9)
      in (if m \<le> 2 then y + 1 else y, m, d))"

definition digit_chr :: "int \<Rightarrow> char" where
  "digit_chr n = char_of (48 + n mod 10)"

definition pad2 :: "int \<Rightarrow> string" where
  "pad2 n = [digit_chr (n div 10), digit_chr n]"

definition pad4 :: "int \<Rightarrow> string" where
  "pad4 n = [digit_chr (n div 1000), digit_chr (n div 100), digit_chr (n div 10), digit_chr n]"

definition strftime_dmy :: "int \<times> int \<times> int \<Rightarrow> string" where
  "strftime_dmy ymd = (case ymd of (y, m, d) \<Rightarrow> pad2 d @ ''-'' @ pad2 m @ ''-'' @ pad4 y)"

definition date_str_ist :: "int \<Rightarrow> int \<Rightarrow> string" where
  "date_str_ist clock days_from_today =
     strftime_dmy (civil_from_days (today_ist clock div 86400 + days_from_today))"

definition is_date_in_hearings :: "hearing list \<Rightarrow> string \<Rightarrow> bool" where
  "is_date_in_hearings hs target_ddmmyyyy = list_ex (\<lambda>h. h_date h = target_ddmmyyyy) hs"

text \<open>Python's truth value of an optional string: \<^verbatim>\<open>None\<close> and the empty string are false.\<close>

definition truthy :: "string option \<Rightarrow> bool" where
  "truthy s = (case s of None \<Rightarrow> False | Some x \<Rightarrow> x \<noteq> [])"

text \<open>The case key (lines 478 to 482), from the three arguments and the overview.\<close>

definition case_key_of ::
  "string option \<Rightarrow> string option \<Rightarrow> string option \<Rightarrow> case_overview option \<Rightarrow> string option" where
  "case_key_of arg_case_type arg_case_number arg_year overview =
     (case (arg_case_type, arg_case_number, arg_year) of
        (Some ct, Some cn, Some yr) \<Rightarrow>
          if ct \<noteq> [] \<and> cn \<noteq> [] \<and> yr \<noteq> [] then Some (ct @ '' '' @ cn @ ''/'' @ yr)
          else (case overview of
                  None \<Rightarrow> None
                | Some ov \<Rightarrow> if truthy (case_number ov) then case_number ov else None)
      | _ \<Rightarrow>
          (case overview of
             None \<Rightarrow> None
           | Some ov \<Rightarrow> if truthy (case_number ov) then case_number ov else None))"

record listing_details =
  d_serial :: string
  d_court :: "string option"
  d_case_text :: "string option"
  d_purpose :: "string option"

record listing_decision =
  is_listed_today :: "bool option"
  is_listed_tomorrow :: "bool option"
  details :: "listing_details option"

text \<open>
  Step 3 of \<^verbatim>\<open>main\<close> (lines 484 to 513 and 523 to 525). \<open>clock0\<close> and \<open>clock1\<close> are the
  readings of the clock that the calls \<^verbatim>\<open>date_str_ist(0)\<close> and \<^verbatim>\<open>date_str_ist(1)\<close> make.
  A row of the cause list and a case overview are dictionaries with keys, so
  \<^verbatim>\<open>if matched\<close> and \<^verbatim>\<open>if result.case_overview\<close> hold exactly when the value is present.
\<close>

definition match_step ::
  "schedule_row list \<Rightarrow> string option \<Rightarrow> bool \<Rightarrow> bool
   \<Rightarrow> listing_details option \<times> bool option \<times> bool option" where
  "match_step entries case_key today tomorrow =
     (case case_key of
        None \<Rightarrow> (None, None, None)
      | Some k \<Rightarrow>
          if entries \<noteq> [] \<and> k \<noteq> [] then
            (case find_case_in_cause_list entries k of
               Some matched \<Rightarrow>
                 (Some \<lparr>d_serial = serial matched, d_court = court_info matched,
                        d_case_text = case_text matched, d_purpose = purpose matched\<rparr>,
                  if today then Some True else None,
                  if tomorrow then Some True else None)
             | None \<Rightarrow>
                 (None,
                  if today then Some False else None,
                  if tomorrow then Some False else None))
          else (None, None, None))"

definition resolve_listing ::
  "case_overview option \<Rightarrow> schedule_row list \<Rightarrow> string option \<Rightarrow> bool \<Rightarrow> bool
   \<Rightarrow> int \<Rightarrow> int \<Rightarrow> listing_decision" where
  "resolve_listing overview entries case_key today tomorrow clock0 clock1 =
     (case match_step entries case_key today tomorrow of
        (listing_details, listed_today, listed_tomorrow) \<Rightarrow>
          (case overview of
             Some ov \<Rightarrow>
               if today \<or> tomorrow then
                 \<lparr>is_listed_today =
                    (if today \<and> listed_today = None
                     then Some (is_date_in_hearings (hearings ov) (date_str_ist clock0 0))
                     else listed_today),
                  is_listed_tomorrow =
                    (if tomorrow \<and> listed_tomorrow = None
                     then Some (is_date_in_hearings (hearings ov) (date_str_ist clock1 1))
                     else listed_tomorrow),
                  details = listing_details\<rparr>
               else \<lparr>is_listed_today = listed_today, is_listed_tomorrow = listed_tomorrow,
                     details = listing_details\<rparr>
           | None \<Rightarrow> \<lparr>is_listed_today = listed_today, is_listed_tomorrow = listed_tomorrow,
                      details = listing_details\<rparr>))"

section \<open>Specification-side notions\<close>

text \<open>
  The words of the specification, defined on their own: the language of a pattern (the
  strings it matches, whatever the order of the attempts), and the whitespace-collapsed,
  lower-cased texts the matcher compares.
\<close>

primrec lang :: "re \<Rightarrow> string set" where
  "lang (Cls p lo hi) =
     {w. list_all p w \<and> lo \<le> length w \<and> (case hi of None \<Rightarrow> True | Some h \<Rightarrow> length w \<le> h)}"
| "lang (Cat a b) = {u @ v | u v. u \<in> lang a \<and> v \<in> lang b}"
| "lang (Or a b) = lang a \<union> lang b"
| "lang Eps = {[]}"
| "lang (Grp g r) = lang r"
| "lang Bnd = {[]}"

primrec bnd_free :: "re \<Rightarrow> bool" where
  "bnd_free (Cls p lo hi) = True"
| "bnd_free (Cat a b) = (bnd_free a \<and> bnd_free b)"
| "bnd_free (Or a b) = (bnd_free a \<and> bnd_free b)"
| "bnd_free Eps = True"
| "bnd_free (Grp g r) = bnd_free r"
| "bnd_free Bnd = False"

function collapse_ws :: "string \<Rightarrow> string" where
  "collapse_ws [] = []"
| "collapse_ws (c # cs) =
     (if py_isspace c then CHR '' '' # collapse_ws (dropWhile py_isspace cs)
      else c # collapse_ws cs)"
  by pat_completeness auto
termination
  by (relation "measure length") (auto simp: length_dropWhile_le less_Suc_eq_le)

definition spec_row_text :: "schedule_row \<Rightarrow> string" where
  "spec_row_text e = py_lower (collapse_ws (py_join '' '' (raw_cells e)))"

definition spec_identifier :: "string \<Rightarrow> string" where
  "spec_identifier k = py_strip (py_lower (collapse_ws k))"

text \<open>A serial as the specification words it: one to four digits, nothing else.\<close>

definition is_serial_text :: "string \<Rightarrow> bool" where
  "is_serial_text s = (1 \<le> length s \<and> length s \<le> 4 \<and> list_all is_digit s)"

definition is_data_row :: "string list \<Rightarrow> bool" where
  "is_data_row tds = (2 \<le> length tds \<and> is_serial_text (hd tds))"

text \<open>
  The date pattern DD-MM-YYYY as the specification words it, an occurrence of it at a
  position of a text, and starts of matches in scan order: each at or after the end of
  the match before it.
\<close>

definition is_date_text :: "string \<Rightarrow> bool" where
  "is_date_text s =
     (case s of
        [d1, d2, s1, m1, m2, s2, y1, y2, y3, y4] \<Rightarrow>
          is_digit d1 \<and> is_digit d2 \<and> s1 = CHR ''-'' \<and> is_digit m1 \<and> is_digit m2
          \<and> s2 = CHR ''-'' \<and> is_digit y1 \<and> is_digit y2 \<and> is_digit y3 \<and> is_digit y4
      | _ \<Rightarrow> False)"

definition is_date_at :: "string \<Rightarrow> nat \<Rightarrow> bool" where
  "is_date_at t p = is_date_text (py_slice p (p + 10) t)"

fun scan_order :: "nat \<Rightarrow> nat list \<Rightarrow> bool" where
  "scan_order lo [] = True"
| "scan_order lo (p # ps) = (lo \<le> p \<and> scan_order (p + 10) ps)"

definition date_match :: "nat \<Rightarrow> rematch" where
  "date_match p = \<lparr>m_start = p, m_end = p + 10, m_caps = [(1, p, p + 10)]\<rparr>"

text \<open>Patterns without a group, whose matches leave the spans of the groups as they were.\<close>

primrec grp_free :: "re \<Rightarrow> bool" where
  "grp_free (Cls p lo hi) = True"
| "grp_free (Cat a b) = (grp_free a \<and> grp_free b)"
| "grp_free (Or a b) = (grp_free a \<and> grp_free b)"
| "grp_free Eps = True"
| "grp_free (Grp g r) = False"
| "grp_free Bnd = True"

text \<open>Patterns in which group \<open>g\<close> is closed on every way to a match.\<close>

primrec has_group :: "nat \<Rightarrow> re \<Rightarrow> bool" where
  "has_group g (Cls p lo hi) = False"
| "has_group g (Cat a b) = (has_group g a \<or> has_group g b)"
| "has_group g (Or a b) = (has_group g a \<and> has_group g b)"
| "has_group g Eps = False"
| "has_group g (Grp g' r) = (g' = g \<or> has_group g r)"
| "has_group g Bnd = False"

text \<open>
  A labelled value: the string \<open>s\<close> starts with a label, then optional whitespace, an
  optional colon or dash, optional whitespace, and then the value \<open>g\<close>. The labels and
  values of a purpose and of a registry identifier follow.
\<close>

definition labelled_value :: "string set \<Rightarrow> string set \<Rightarrow> string \<Rightarrow> string \<Rightarrow> bool" where
  "labelled_value labels vals s g \<longleftrightarrow>
     (\<exists>lab ws1 sep ws2 post. s = lab @ ws1 @ sep @ ws2 @ g @ post
        \<and> lab \<in> labels \<and> list_all py_isspace ws1 \<and> sep \<in> {[], '':'', ''-''}
        \<and> list_all py_isspace ws2 \<and> g \<in> vals)"

definition purpose_labels :: "string set" where
  "purpose_labels = {lab. py_lower lab = ''purpose'' \<or> py_lower lab = ''stage''}"

definition purpose_values :: "string set" where
  "purpose_values = {g. 3 \<le> length g \<and> length g \<le> 60 \<and> list_all is_purpose_chr g}"

definition cnr_labels :: "string set" where
  "cnr_labels = {a @ ws @ b @ dot | a ws b dot.
     py_lower a = ''cnr'' \<and> list_all py_isspace ws \<and> py_lower b = ''no'' \<and> (dot = [] \<or> dot = ''.'')}"

text \<open>
  Three sets of values for a registry identifier: the 16 characters that the pattern takes
  on the code points of the model, the 16 upper-case letters or digits that the
  specification names, and any 16 characters free of whitespace, which include both.
\<close>

definition cnr_values :: "string set" where
  "cnr_values = {g. length g = 16 \<and> list_all is_alnum g}"

definition is_upper_alnum :: "char \<Rightarrow> bool" where
  "is_upper_alnum c = (is_upper_az c \<or> is_digit c)"

definition cnr_upper_values :: "string set" where
  "cnr_upper_values = {g. length g = 16 \<and> list_all is_upper_alnum g}"

definition cnr_unbroken_values :: "string set" where
  "cnr_unbroken_values = {g. length g = 16 \<and> list_all (\<lambda>c. \<not> py_isspace c) g}"


section \<open>The matcher explores the language of its pattern\<close>

lemma first_some_None_iff: "first_some f xs = None \<longleftrightarrow> (\<forall>x \<in> set xs. f x = None)"
  by (induction xs) (auto split: option.splits)

lemma first_some_append:
  "first_some f (xs @ ys) = (case first_some f xs of Some y \<Rightarrow> Some y | None \<Rightarrow> first_some f ys)"
  by (induction xs) (auto split: option.splits)

lemma first_some_upt_least:
  assumes "a \<le> i" "i < b" "f i = Some y" "\<forall>k. a \<le> k \<and> k < i \<longrightarrow> f k = None"
  shows "first_some f [a..<b] = Some y"
proof -
  have "[a..<i + (b - i)] = [a..<i] @ [i..<i + (b - i)]"
    using assms(1) by (rule upt_add_eq_append)
  moreover have "i + (b - i) = b" using assms(2) by simp
  moreover have "[i..<b] = i # [Suc i..<b]" using assms(2) by (simp add: upt_conv_Cons)
  ultimately have split: "[a..<b] = [a..<i] @ i # [Suc i..<b]" by simp
  have "first_some f [a..<i] = None"
    using assms(4) by (simp add: first_some_None_iff)
  then show ?thesis
    unfolding split first_some_append using assms(3) by simp
qed

lemma first_some_upt_SomeD:
  assumes "first_some f [a..<b] = Some y"
  shows "\<exists>i. a \<le> i \<and> i < b \<and> f i = Some y \<and> (\<forall>k. a \<le> k \<and> k < i \<longrightarrow> f k = None)"
  using assms
proof (induction "b - a" arbitrary: a)
  case 0
  then show ?case by simp
next
  case (Suc n)
  then have ab: "a < b" by simp
  then have eq: "[a..<b] = a # [Suc a..<b]" by (simp add: upt_conv_Cons)
  show ?case
  proof (cases "f a")
    case None
    with Suc.prems eq have "first_some f [Suc a..<b] = Some y" by simp
    moreover from Suc.hyps(2) have "n = b - Suc a" by simp
    ultimately obtain i where i: "Suc a \<le> i" "i < b" "f i = Some y"
        "\<forall>k. Suc a \<le> k \<and> k < i \<longrightarrow> f k = None"
      using Suc.hyps(1) by blast
    have "\<forall>k. a \<le> k \<and> k < i \<longrightarrow> f k = None"
    proof (intro allI impI)
      fix k assume k: "a \<le> k \<and> k < i"
      show "f k = None"
      proof (cases "k = a")
        case True with None show ?thesis by simp
      next
        case False with k i(4) show ?thesis by simp
      qed
    qed
    with i show ?thesis by (intro exI [of _ i]) simp
  next
    case (Some z)
    with Suc.prems eq have "z = y" by simp
    with Some ab show ?thesis by (intro exI [of _ a]) auto
  qed
qed

lemma takeWhile_length_iff:
  "k \<le> length (takeWhile p xs) \<longleftrightarrow> k \<le> length xs \<and> list_all p (take k xs)"
proof (induction xs arbitrary: k)
  case Nil
  then show ?case by simp
next
  case (Cons x xs)
  then show ?case by (cases k) auto
qed

lemma py_slice_append:
  "i \<le> k \<Longrightarrow> k \<le> j \<Longrightarrow> py_slice i j t = py_slice i k t @ py_slice k j t"
proof -
  assume ik: "i \<le> k" and kj: "k \<le> j"
  have "j - i = (k - i) + (j - k)" using ik kj by simp
  then have "take (j - i) (drop i t) = take (k - i) (drop i t) @ take (j - k) (drop (k - i) (drop i t))"
    by (simp only: take_add)
  then show ?thesis using ik by (simp add: py_slice_def)
qed

lemma py_slice_length: "j \<le> length t \<Longrightarrow> length (py_slice i j t) = j - i"
  by (simp add: py_slice_def)

lemma rmatch_Cls_ends:
  assumes "i \<le> length t"
  shows "fst ` set (rmatch (Cls p lo hi) t (i, c)) =
         {j. i \<le> j \<and> j \<le> length t \<and> py_slice i j t \<in> lang (Cls p lo hi)}"
proof -
  define n where "n = length (takeWhile p (drop i t))"
  define m where "m = (case hi of None \<Rightarrow> n | Some h \<Rightarrow> min n h)"
  have res: "fst ` set (rmatch (Cls p lo hi) t (i, c)) = {i + k | k. lo \<le> k \<and> k \<le> m}"
    unfolding rmatch.simps Let_def n_def [symmetric] m_def [symmetric]
    by (auto simp del: upt_Suc simp: image_iff)
  have run: "k \<le> n \<longleftrightarrow> i + k \<le> length t \<and> list_all p (py_slice i (i + k) t)" for k
    using assms unfolding n_def takeWhile_length_iff py_slice_def by auto
  show ?thesis
  proof (intro set_eqI iffI)
    fix j assume "j \<in> fst ` set (rmatch (Cls p lo hi) t (i, c))"
    then obtain k where k: "j = i + k" "lo \<le> k" "k \<le> m" unfolding res by blast
    then have kn: "k \<le> n" by (auto simp: m_def split: option.splits)
    with run [of k] have "i + k \<le> length t" "list_all p (py_slice i (i + k) t)" by simp_all
    moreover have "length (py_slice i (i + k) t) = k"
      using \<open>i + k \<le> length t\<close> by (simp add: py_slice_def)
    ultimately show "j \<in> {j. i \<le> j \<and> j \<le> length t \<and> py_slice i j t \<in> lang (Cls p lo hi)}"
      using k by (auto simp: m_def split: option.splits)
  next
    fix j assume "j \<in> {j. i \<le> j \<and> j \<le> length t \<and> py_slice i j t \<in> lang (Cls p lo hi)}"
    then have j: "i \<le> j" "j \<le> length t" and l: "py_slice i j t \<in> lang (Cls p lo hi)" by simp_all
    define k where "k = j - i"
    have jk: "j = i + k" using j by (simp add: k_def)
    have len: "length (py_slice i j t) = k" using j by (simp add: py_slice_def k_def)
    from l len have "list_all p (py_slice i (i + k) t)" "lo \<le> k"
        "case hi of None \<Rightarrow> True | Some h \<Rightarrow> k \<le> h"
      unfolding jk by (auto split: option.splits)
    moreover from this(1) j jk run [of k] have "k \<le> n" by simp
    ultimately have "lo \<le> k \<and> k \<le> m" by (auto simp: m_def split: option.splits)
    then show "j \<in> fst ` set (rmatch (Cls p lo hi) t (i, c))" unfolding res jk by blast
  qed
qed

lemma rmatch_Cat_mem:
  "(j, c') \<in> set (rmatch (Cat a b) t st)
     \<longleftrightarrow> (\<exists>k ck. (k, ck) \<in> set (rmatch a t st) \<and> (j, c') \<in> set (rmatch b t (k, ck)))"
  by auto

lemma fst_image_mem: "j \<in> fst ` S \<longleftrightarrow> (\<exists>c. (j, c) \<in> S)"
  by force

lemma rmatch_ends:
  assumes "bnd_free r" "i \<le> length t"
  shows "fst ` set (rmatch r t (i, c)) = {j. i \<le> j \<and> j \<le> length t \<and> py_slice i j t \<in> lang r}"
  using assms
proof (induction r arbitrary: i c)
  case (Cls p lo hi)
  show ?case by (rule rmatch_Cls_ends [OF Cls.prems(2)])
next
  case (Cat a b)
  from Cat.prems have fa: "bnd_free a" and fb: "bnd_free b" by simp_all
  note A = Cat.IH(1) [OF fa Cat.prems(2)]
  show ?case
  proof (intro set_eqI iffI)
    fix j assume "j \<in> fst ` set (rmatch (Cat a b) t (i, c))"
    then obtain c' where "(j, c') \<in> set (rmatch (Cat a b) t (i, c))"
      unfolding fst_image_mem by blast
    then obtain k ck where 1: "(k, ck) \<in> set (rmatch a t (i, c))"
      and 2: "(j, c') \<in> set (rmatch b t (k, ck))"
      unfolding rmatch_Cat_mem by blast
    from 1 have "k \<in> fst ` set (rmatch a t (i, c))" by force
    with A [of c] have k: "i \<le> k" "k \<le> length t" "py_slice i k t \<in> lang a" by simp_all
    from 2 have "j \<in> fst ` set (rmatch b t (k, ck))" by force
    with Cat.IH(2) [OF fb k(2), of ck]
    have j: "k \<le> j" "j \<le> length t" "py_slice k j t \<in> lang b" by simp_all
    from py_slice_append [OF k(1) j(1)] k(3) j(3)
    have "py_slice i j t \<in> lang (Cat a b)" by auto
    with k j show "j \<in> {j. i \<le> j \<and> j \<le> length t \<and> py_slice i j t \<in> lang (Cat a b)}" by simp
  next
    fix j assume "j \<in> {j. i \<le> j \<and> j \<le> length t \<and> py_slice i j t \<in> lang (Cat a b)}"
    then obtain u v where j: "i \<le> j" "j \<le> length t" and uv: "py_slice i j t = u @ v"
      and u: "u \<in> lang a" and v: "v \<in> lang b"
      by auto
    define k where "k = i + length u"
    have "length (py_slice i j t) = j - i" using j by (simp add: py_slice_def)
    with uv have lu: "length u \<le> j - i" by simp
    then have ik: "i \<le> k" and kj: "k \<le> j" using j by (simp_all add: k_def)
    from py_slice_append [OF ik kj, of t] uv
    have "py_slice i k t @ py_slice k j t = u @ v" by simp
    moreover have "length (py_slice i k t) = length u"
      using kj j by (simp add: py_slice_def k_def)
    ultimately have su: "py_slice i k t = u" and sv: "py_slice k j t = v" by simp_all
    have kt: "k \<le> length t" using kj j by simp
    from A [of c] ik kt su u have "k \<in> fst ` set (rmatch a t (i, c))" by simp
    then obtain ck where 1: "(k, ck) \<in> set (rmatch a t (i, c))"
      unfolding fst_image_mem by blast
    from Cat.IH(2) [OF fb kt, of ck] kj j sv v have "j \<in> fst ` set (rmatch b t (k, ck))" by simp
    then obtain c' where 2: "(j, c') \<in> set (rmatch b t (k, ck))"
      unfolding fst_image_mem by blast
    from 1 2 have "(j, c') \<in> set (rmatch (Cat a b) t (i, c))"
      unfolding rmatch_Cat_mem by blast
    then show "j \<in> fst ` set (rmatch (Cat a b) t (i, c))"
      unfolding fst_image_mem by blast
  qed
next
  case (Or a b)
  from Or.prems have fa: "bnd_free a" and fb: "bnd_free b" by simp_all
  from Or.IH(1) [OF fa Or.prems(2), of c] Or.IH(2) [OF fb Or.prems(2), of c]
  show ?case by (auto simp: image_Un)
next
  case Eps
  then show ?case by (auto simp: py_slice_def)
next
  case (Grp g r)
  have "fst ` set (rmatch (Grp g r) t (i, c)) = fst ` set (rmatch r t (i, c))"
    by (force simp: image_iff)
  with Grp show ?case by simp
next
  case Bnd
  then show ?case by simp
qed

section \<open>Finding the case: properties\<close>

lemma py_contains_sublist: "py_contains k s \<longleftrightarrow> sublist k s"
  by (induction s) (auto simp: sublist_Cons_right)

lemma ord_lower_char:
  "ord (py_lower_char c) =
     (if (65 \<le> ord c \<and> ord c \<le> 90) \<or> (192 \<le> ord c \<and> ord c \<le> 222 \<and> ord c \<noteq> 215)
      then ord c + 32 else ord c)"
  by (auto simp: py_lower_char_def ord_def Let_def)

lemma py_isspace_lower [simp]: "py_isspace (py_lower_char c) = py_isspace c"
  unfolding py_isspace_def Let_def ord_lower_char by auto

lemma py_strip_lower: "py_strip (py_lower s) = py_lower (py_strip s)"
  by (simp add: py_strip_def py_lower_def dropWhile_map rev_map comp_def)

lemma sublist_dropWhile:
  assumes "k \<noteq> []" "\<not> P (hd k)" "sublist k y"
  shows "sublist k (dropWhile P y)"
  using assms(3)
proof (induction y)
  case Nil
  then show ?case by simp
next
  case (Cons c cs)
  show ?case
  proof (cases "P c")
    case True
    from Cons.prems have "prefix k (c # cs) \<or> sublist k cs" by (simp add: sublist_Cons_right)
    moreover have "\<not> prefix k (c # cs)"
    proof
      assume "prefix k (c # cs)"
      with assms(1) have "hd k = c" by (cases k) auto
      with True assms(2) show False by simp
    qed
    ultimately have "sublist k cs" by simp
    with Cons.IH True show ?thesis by simp
  next
    case False
    with Cons.prems show ?thesis by simp
  qed
qed

lemma sublist_py_strip:
  assumes "k = [] \<or> (\<not> py_isspace (hd k) \<and> \<not> py_isspace (last k))"
  shows "sublist k (py_strip y) \<longleftrightarrow> sublist k y"
proof (cases "k = []")
  case True
  then show ?thesis by simp
next
  case False
  with assms have h: "\<not> py_isspace (hd k)" and l: "\<not> py_isspace (last k)" by simp_all
  show ?thesis
  proof
    assume "sublist k (py_strip y)"
    then have "sublist (rev k) (dropWhile py_isspace (rev (dropWhile py_isspace y)))"
      unfolding py_strip_def by (simp add: sublist_rev_right)
    moreover have "sublist (dropWhile py_isspace (rev (dropWhile py_isspace y))) (rev (dropWhile py_isspace y))"
      by (rule suffix_imp_sublist [OF suffix_dropWhile])
    ultimately have "sublist (rev k) (rev (dropWhile py_isspace y))"
      by (rule sublist_order.order.trans)
    then have "sublist k (dropWhile py_isspace y)" by simp
    moreover have "sublist (dropWhile py_isspace y) y"
      by (rule suffix_imp_sublist [OF suffix_dropWhile])
    ultimately show "sublist k y" by (rule sublist_order.order.trans)
  next
    assume "sublist k y"
    from sublist_dropWhile [of k py_isspace y] False h this
    have "sublist k (dropWhile py_isspace y)" by simp
    then have 1: "sublist (rev k) (rev (dropWhile py_isspace y))" by simp
    have 2: "rev k \<noteq> []" using False by simp
    have 3: "\<not> py_isspace (hd (rev k))" using False l by (simp add: hd_rev)
    from sublist_dropWhile [of "rev k" py_isspace "rev (dropWhile py_isspace y)"] 1 2 3
    show "sublist k (py_strip y)" unfolding py_strip_def by (simp add: sublist_rev_right)
  qed
qed

lemma py_strip_ends:
  "py_strip x = [] \<or> (\<not> py_isspace (hd (py_strip x)) \<and> \<not> py_isspace (last (py_strip x)))"
proof (cases "py_strip x = []")
  case True
  then show ?thesis by simp
next
  case False
  define d where "d = dropWhile py_isspace x"
  define e where "e = dropWhile py_isspace (rev d)"
  have s: "py_strip x = rev e" by (simp add: py_strip_def d_def e_def)
  from False s have ne: "e \<noteq> []" by simp
  then have "rev d \<noteq> []" unfolding e_def by auto
  then have dne: "d \<noteq> []" by simp
  have "\<not> py_isspace (hd e)" unfolding e_def using ne hd_dropWhile e_def by blast
  then have l: "\<not> py_isspace (last (py_strip x))" using ne by (simp add: s last_rev)
  have "suffix e (rev d)" unfolding e_def by (rule suffix_dropWhile)
  then obtain zs where "rev d = zs @ e" by (auto simp: suffix_def)
  with ne have "last (rev d) = last e" by simp
  then have "last e = hd d" using dne by (simp add: last_rev)
  moreover have "\<not> py_isspace (hd d)" unfolding d_def using dne hd_dropWhile d_def by blast
  ultimately have "\<not> py_isspace (hd (py_strip x))" using ne by (simp add: s hd_rev)
  with l show ?thesis by simp
qed

lemma py_lower_ends:
  assumes "k = [] \<or> (\<not> py_isspace (hd k) \<and> \<not> py_isspace (last k))"
  shows "py_lower k = [] \<or> (\<not> py_isspace (hd (py_lower k)) \<and> \<not> py_isspace (last (py_lower k)))"
  using assms by (cases "k = []") (auto simp: py_lower_def hd_map last_map)

lemma match_at_WS_space:
  assumes "i < length t" "py_isspace (t ! i)"
  shows "match_at WS_RE t i False =
           Some \<lparr>m_start = i, m_end = i + length (takeWhile py_isspace (drop i t)), m_caps = []\<rparr>"
proof -
  define n where "n = length (takeWhile py_isspace (drop i t))"
  have d: "drop i t = t ! i # drop (Suc i) t" using assms(1) by (simp add: Cons_nth_drop_Suc)
  have "1 \<le> n" unfolding n_def d using assms(2) by simp
  then have "rev [1..<Suc n] = n # rev [1..<n]" by simp
  then have "rmatch WS_RE t (i, []) = (i + n, []) # map (\<lambda>k. (i + k, [])) (rev [1..<n])"
    unfolding WS_RE_def plus_def rmatch.simps Let_def n_def [symmetric] by simp
  then show ?thesis unfolding match_at_def n_def [symmetric] by simp
qed

lemma match_at_WS_other:
  assumes "\<not> (i < length t \<and> py_isspace (t ! i))"
  shows "match_at WS_RE t i False = None"
proof -
  have "takeWhile py_isspace (drop i t) = []"
  proof (cases "i < length t")
    case True
    then have "drop i t = t ! i # drop (Suc i) t" by (simp add: Cons_nth_drop_Suc)
    with True assms show ?thesis by simp
  next
    case False
    then show ?thesis by simp
  qed
  then have "rmatch WS_RE t (i, []) = []"
    unfolding WS_RE_def plus_def rmatch.simps Let_def by simp
  then show ?thesis unfolding match_at_def by simp
qed

lemma first_some_cong:
  "(\<And>x. x \<in> set xs \<Longrightarrow> f x = g x) \<Longrightarrow> first_some f xs = first_some g xs"
  by (induction xs) (auto split: option.splits)

lemma re_search_from_no_adv:
  "re_search_from r t pos False = first_some (\<lambda>i. match_at r t i False) [pos..<Suc (length t)]"
  by (simp add: re_search_from_def)

lemma re_search_from_step:
  assumes "pos \<le> length t" "match_at r t pos adv = None"
  shows "re_search_from r t pos adv = re_search_from r t (Suc pos) False"
proof -
  have "[pos..<Suc (length t)] = pos # [Suc pos..<Suc (length t)]"
    using assms(1) by (simp add: upt_conv_Cons)
  moreover have "first_some (\<lambda>i. match_at r t i (adv \<and> i = pos)) [Suc pos..<Suc (length t)]
               = first_some (\<lambda>i. match_at r t i False) [Suc pos..<Suc (length t)]"
  proof (rule first_some_cong)
    fix x assume "x \<in> set [Suc pos..<Suc (length t)]"
    then have "x \<noteq> pos" by auto
    then show "match_at r t x (adv \<and> x = pos) = match_at r t x False" by simp
  qed
  ultimately show ?thesis
    unfolding re_search_from_def using assms(2) by simp
qed

lemma re_search_from_hit:
  assumes "pos \<le> length t" "match_at r t pos adv = Some m"
  shows "re_search_from r t pos adv = Some m"
proof -
  have "[pos..<Suc (length t)] = pos # [Suc pos..<Suc (length t)]"
    using assms(1) by (simp add: upt_conv_Cons)
  then show ?thesis unfolding re_search_from_def using assms(2) by simp
qed

lemma re_finditer_from_head:
  "re_finditer_from r t pos adv = [] \<or> pos \<le> m_start (hd (re_finditer_from r t pos adv))"
proof (cases "re_search_from r t pos adv")
  case None
  then show ?thesis by (subst re_finditer_from.simps) simp
next
  case (Some m)
  from re_search_from_bounds [OF Some] have "pos \<le> m_start m" by simp
  with Some show ?thesis by (subst (2) re_finditer_from.simps) simp
qed

lemma sub_pieces_shift:
  assumes "pos < length t" "ms = [] \<or> pos < m_start (hd ms)"
  shows "sub_pieces repl t pos ms = t ! pos # sub_pieces repl t (Suc pos) ms"
proof (cases ms)
  case Nil
  with assms(1) show ?thesis by (simp add: Cons_nth_drop_Suc)
next
  case (Cons m ms')
  with assms(2) have lt: "pos < m_start m" by simp
  then obtain d where d: "m_start m - pos = Suc d" "m_start m - Suc pos = d"
    by (metis Suc_diff_Suc diff_Suc_eq_diff_pred)
  have "drop pos t = t ! pos # drop (Suc pos) t" using assms(1) by (simp add: Cons_nth_drop_Suc)
  then have "py_slice pos (m_start m) t = t ! pos # py_slice (Suc pos) (m_start m) t"
    unfolding py_slice_def d by simp
  with Cons show ?thesis by simp
qed

lemma ws_collapse_from:
  "pos \<le> length t \<Longrightarrow>
     sub_pieces '' '' t pos (re_finditer_from WS_RE t pos False) = collapse_ws (drop pos t)"
proof (induction "length t - pos" arbitrary: pos rule: less_induct)
  case less
  show ?case
  proof (cases "pos < length t")
    case False
    with less.prems have eq: "pos = length t" by simp
    have "match_at WS_RE t pos False = None" by (rule match_at_WS_other) (simp add: eq)
    then have "re_search_from WS_RE t pos False = None"
      unfolding re_search_from_def eq by simp
    then have "re_finditer_from WS_RE t pos False = []"
      by (subst re_finditer_from.simps) simp
    then show ?thesis by (simp add: eq)
  next
    case True
    then have d: "drop pos t = t ! pos # drop (Suc pos) t" by (simp add: Cons_nth_drop_Suc)
    show ?thesis
    proof (cases "py_isspace (t ! pos)")
      case sp: True
      define n where "n = length (takeWhile py_isspace (drop pos t))"
      define m where "m = \<lparr>m_start = pos, m_end = pos + n, m_caps = []\<rparr>"
      have n: "n = Suc (length (takeWhile py_isspace (drop (Suc pos) t)))"
        unfolding n_def d using sp by simp
      have "n \<le> length (drop pos t)" unfolding n_def by (rule length_takeWhile_le)
      then have le: "pos + n \<le> length t" using True by simp
      have "match_at WS_RE t pos False = Some m"
        unfolding m_def n_def by (rule match_at_WS_space [OF True sp])
      then have "re_search_from WS_RE t pos False = Some m"
        by (rule re_search_from_hit [OF less.prems])
      then have it: "re_finditer_from WS_RE t pos False = m # re_finditer_from WS_RE t (pos + n) False"
        by (subst re_finditer_from.simps) (simp add: m_def n)
      have "length t - (pos + n) < length t - pos" using True n by simp
      from less.hyps [OF this le]
      have IH: "sub_pieces '' '' t (pos + n) (re_finditer_from WS_RE t (pos + n) False)
                  = collapse_ws (drop (pos + n) t)" .
      have "dropWhile py_isspace (drop (Suc pos) t)
              = drop (length (takeWhile py_isspace (drop (Suc pos) t))) (drop (Suc pos) t)"
        by (rule dropWhile_eq_drop)
      also have "\<dots> = drop (pos + n) t" by (simp add: n add.commute)
      finally have dw: "dropWhile py_isspace (drop (Suc pos) t) = drop (pos + n) t" .
      show ?thesis
        unfolding it d using sp IH by (simp add: m_def py_slice_def dw)
    next
      case nsp: False
      then have "match_at WS_RE t pos False = None" by (intro match_at_WS_other) simp
      from re_search_from_step [OF less.prems this]
      have "re_search_from WS_RE t pos False = re_search_from WS_RE t (Suc pos) False" .
      then have it: "re_finditer_from WS_RE t pos False = re_finditer_from WS_RE t (Suc pos) False"
        by (subst re_finditer_from.simps, subst (2) re_finditer_from.simps) simp
      have hd: "re_finditer_from WS_RE t (Suc pos) False = []
                \<or> pos < m_start (hd (re_finditer_from WS_RE t (Suc pos) False))"
        using re_finditer_from_head [of WS_RE t "Suc pos" False] by auto
      have "length t - Suc pos < length t - pos" using True by simp
      moreover have "Suc pos \<le> length t" using True by simp
      ultimately have IH: "sub_pieces '' '' t (Suc pos) (re_finditer_from WS_RE t (Suc pos) False)
                  = collapse_ws (drop (Suc pos) t)"
        by (rule less.hyps)
      show ?thesis
        unfolding it sub_pieces_shift [OF True hd] IH d using nsp by simp
    qed
  qed
qed

lemma re_sub_WS: "re_sub WS_RE '' '' s = collapse_ws s"
  using ws_collapse_from [of 0 s] by (simp add: re_sub_def re_finditer_def)

lemma find_case_loop_find:
  "find_case_loop kn es = find (\<lambda>e. py_contains kn (big_text_norm_of e)) es"
  by (induction es) simp_all

lemma key_norm_of_spec: "key_norm_of key = spec_identifier key"
  by (simp add: key_norm_of_def spec_identifier_def re_sub_WS py_strip_lower)

lemma big_text_norm_of_spec: "big_text_norm_of e = py_strip (spec_row_text e)"
  by (simp add: big_text_norm_of_def spec_row_text_def re_sub_WS py_strip_lower)

lemma row_matches_spec:
  "py_contains (key_norm_of key) (big_text_norm_of e)
     \<longleftrightarrow> sublist (spec_identifier key) (spec_row_text e)"
  unfolding py_contains_sublist key_norm_of_spec big_text_norm_of_spec
  by (rule sublist_py_strip) (simp add: spec_identifier_def py_strip_ends)

lemma collapse_ws_blank:
  assumes "\<forall>c \<in> set key. py_isspace c"
  shows "py_strip (collapse_ws key) = []"
proof (cases key)
  case Nil
  then show ?thesis by (simp add: py_strip_def)
next
  case (Cons c cs)
  with assms have c: "py_isspace c" and dw: "dropWhile py_isspace cs = []" by simp_all
  have "collapse_ws key = '' ''" unfolding Cons collapse_ws.simps dw using c by simp
  moreover have "py_isspace CHR '' ''" by (simp add: py_isspace_def ord_def)
  ultimately show ?thesis by (simp add: py_strip_def)
qed

lemma py_contains_Nil: "py_contains [] s"
  by (cases s) simp_all

text \<open>
  Claim C1. The matcher returns the first row, in input order, whose cells joined with
  single spaces, whitespace-collapsed and lower-cased, contain the identifier
  (whitespace-collapsed, lower-cased and trimmed) as a contiguous substring, and nothing
  when no row does. The instance below is the row with cells 12, OS 45/2023, Evidence:
  OS 45/2023 finds it, OS 999/2023 finds nothing.
\<close>

theorem find_case_first_match:
  "find_case_in_cause_list entries key =
     find (\<lambda>e. sublist (spec_identifier key) (spec_row_text e)) entries"
  unfolding find_case_in_cause_list_def find_case_loop_find row_matches_spec ..

theorem find_case_first_match_witness:
  "find (\<lambda>e. sublist (spec_identifier ''OS 45/2023'') (spec_row_text e))
       [\<lparr>serial = ''12'', case_text = Some ''OS 45/2023'', purpose = None, court_info = None,
         raw_cells = [''12'', ''OS 45/2023'', ''Evidence'']\<rparr>]
     = Some \<lparr>serial = ''12'', case_text = Some ''OS 45/2023'', purpose = None, court_info = None,
         raw_cells = [''12'', ''OS 45/2023'', ''Evidence'']\<rparr>
   \<and> find_case_in_cause_list
       [\<lparr>serial = ''12'', case_text = Some ''OS 45/2023'', purpose = None, court_info = None,
         raw_cells = [''12'', ''OS 45/2023'', ''Evidence'']\<rparr>] ''OS 45/2023''
     = Some \<lparr>serial = ''12'', case_text = Some ''OS 45/2023'', purpose = None, court_info = None,
         raw_cells = [''12'', ''OS 45/2023'', ''Evidence'']\<rparr>
   \<and> find (\<lambda>e. sublist (spec_identifier ''OS 999/2023'') (spec_row_text e))
       [\<lparr>serial = ''12'', case_text = Some ''OS 45/2023'', purpose = None, court_info = None,
         raw_cells = [''12'', ''OS 45/2023'', ''Evidence'']\<rparr>]
     = None
   \<and> find_case_in_cause_list
       [\<lparr>serial = ''12'', case_text = Some ''OS 45/2023'', purpose = None, court_info = None,
         raw_cells = [''12'', ''OS 45/2023'', ''Evidence'']\<rparr>] ''OS 999/2023''
     = None"
proof -
  let ?r = "\<lparr>serial = ''12'', case_text = Some ''OS 45/2023'', purpose = None, court_info = None,
         raw_cells = [''12'', ''OS 45/2023'', ''Evidence'']\<rparr>"
  have 1: "find_case_in_cause_list [?r] ''OS 45/2023'' = Some ?r" by code_simp
  have 2: "find_case_in_cause_list [?r] ''OS 999/2023'' = None" by code_simp
  from 1 2 find_case_first_match [of "[?r]" "''OS 45/2023''"]
    find_case_first_match [of "[?r]" "''OS 999/2023''"]
  show ?thesis by simp
qed

text \<open>
  Claim C10. For a non-empty sequence of rows and an identifier that is empty or all
  whitespace, the matcher returns the first row: the identifier normalizes to the empty
  string, which every row's text contains.
\<close>

theorem find_case_blank_key:
  assumes "entries \<noteq> []" and "\<forall>c \<in> set key. py_isspace c"
  shows "key_norm_of key = [] \<and> find_case_in_cause_list entries key = Some (hd entries)"
proof -
  from collapse_ws_blank [OF assms(2)] have k: "key_norm_of key = []"
    by (simp add: key_norm_of_def re_sub_WS py_lower_def)
  from assms(1) obtain e es where "entries = e # es" by (cases entries) auto
  with k show ?thesis
    by (simp add: find_case_in_cause_list_def py_contains_Nil)
qed

theorem find_case_blank_key_witness:
  "find_case_in_cause_list
       [\<lparr>serial = ''12'', case_text = Some ''OS 45/2023'', purpose = None, court_info = None,
         raw_cells = [''12'', ''OS 45/2023'', ''Evidence'']\<rparr>,
        \<lparr>serial = ''13'', case_text = None, purpose = None, court_info = None,
         raw_cells = [''13'', ''CC 7/2021'']\<rparr>] [CHR '' '', CHR 0x09, CHR '' '']
     = Some \<lparr>serial = ''12'', case_text = Some ''OS 45/2023'', purpose = None, court_info = None,
         raw_cells = [''12'', ''OS 45/2023'', ''Evidence'']\<rparr>
   \<and> find_case_in_cause_list
       [\<lparr>serial = ''13'', case_text = None, purpose = None, court_info = None,
         raw_cells = [''13'', ''CC 7/2021'']\<rparr>] ''''
     = Some \<lparr>serial = ''13'', case_text = None, purpose = None, court_info = None,
         raw_cells = [''13'', ''CC 7/2021'']\<rparr>"
proof -
  have sp: "\<forall>c \<in> set [CHR '' '', CHR 0x09, CHR '' '']. py_isspace c"
    by (simp add: py_isspace_def ord_def)
  have e: "\<forall>c \<in> set ''''. py_isspace c" by simp
  show ?thesis
    using find_case_blank_key [OF _ sp] find_case_blank_key [OF _ e]
    by simp
qed

section \<open>The schedule rows: properties\<close>

lemma py_slice_all [simp]: "py_slice 0 (length t) t = t"
  by (simp add: py_slice_def)

lemma re_fullmatch_lang:
  assumes "bnd_free r"
  shows "re_fullmatch r t \<noteq> None \<longleftrightarrow> t \<in> lang r"
proof -
  have "re_fullmatch r t \<noteq> None
          \<longleftrightarrow> filter (\<lambda>(j, c). j = length t) (rmatch r t (0, [])) \<noteq> []"
    by (auto simp: re_fullmatch_def split: list.splits)
  also have "\<dots> \<longleftrightarrow> length t \<in> fst ` set (rmatch r t (0, []))"
    by (force simp: filter_empty_conv image_iff)
  also have "\<dots> \<longleftrightarrow> t \<in> lang r"
    unfolding rmatch_ends [OF assms, of 0 t, simplified] by simp
  finally show ?thesis .
qed

lemma match_at_lang:
  assumes "bnd_free r" "i \<le> length t"
  shows "match_at r t i False \<noteq> None
           \<longleftrightarrow> (\<exists>j. i \<le> j \<and> j \<le> length t \<and> py_slice i j t \<in> lang r)"
proof -
  have "match_at r t i False \<noteq> None \<longleftrightarrow> rmatch r t (i, []) \<noteq> []"
    by (auto simp: match_at_def split: list.splits)
  also have "\<dots> \<longleftrightarrow> fst ` set (rmatch r t (i, [])) \<noteq> {}" by simp
  also have "\<dots> \<longleftrightarrow> (\<exists>j. i \<le> j \<and> j \<le> length t \<and> py_slice i j t \<in> lang r)"
    unfolding rmatch_ends [OF assms] by auto
  finally show ?thesis .
qed

lemma serial_lang: "s \<in> lang SERIAL_RE \<longleftrightarrow> is_serial_text s"
  by (auto simp: SERIAL_RE_def is_serial_text_def)

lemma re_fullmatch_serial: "re_fullmatch SERIAL_RE s \<noteq> None \<longleftrightarrow> is_serial_text s"
proof -
  have "bnd_free SERIAL_RE" by (simp add: SERIAL_RE_def)
  from re_fullmatch_lang [OF this] show ?thesis by (simp only: serial_lang)
qed


lemma nth_0_hd: "xs \<noteq> [] \<Longrightarrow> xs ! 0 = hd xs"
  by (cases xs) simp_all

lemma parse_row_eq:
  "parse_row tds = Inr (if is_data_row tds then Some (row_of (hd tds) tds) else None)"
proof (cases "tds = [] \<or> length tds < 2")
  case True
  then show ?thesis by (auto simp: parse_row_def is_data_row_def)
next
  case False
  then have ne: "tds \<noteq> []" and len: "2 \<le> length tds" by simp_all
  then have idx: "py_index tds 0 = Inr (hd tds)" by (simp add: py_index_def nth_0_hd)
  show ?thesis
  proof (cases "is_serial_text (hd tds)")
    case True
    then obtain m where m: "re_fullmatch SERIAL_RE (hd tds) = Some m"
      using re_fullmatch_serial [of "hd tds"] by auto
    from True have "hd tds \<noteq> []" by (auto simp: is_serial_text_def)
    with True m idx len False show ?thesis by (simp add: parse_row_def is_data_row_def)
  next
    case nser: False
    then have "re_fullmatch SERIAL_RE (hd tds) = None"
      using re_fullmatch_serial [of "hd tds"] by simp
    with nser idx False show ?thesis
      by (simp add: parse_row_def is_data_row_def split: option.splits)
  qed
qed

lemma parse_trs_eq:
  "parse_trs trs rows = Inr (rows @ map (\<lambda>tds. row_of (hd tds) tds) (filter is_data_row trs))"
  by (induction trs arbitrary: rows) (simp_all add: parse_row_eq)

lemma parse_tables_eq:
  "parse_tables tables rows =
     Inr (rows @ map (\<lambda>tds. row_of (hd tds) tds) (filter is_data_row (concat tables)))"
  by (induction tables arbitrary: rows) (simp_all add: parse_trs_eq)

lemma parse_cause_list_html_eq:
  "parse_cause_list_html tables =
     Inr (map (\<lambda>tds. row_of (hd tds) tds) (filter is_data_row (concat tables)))"
  by (simp add: parse_cause_list_html_def parse_tables_eq)

lemma lit_ci_Nil [simp]: "lit_ci [] = Eps"
  by (simp add: lit_ci_def)

lemma lit_ci_Cons [simp]: "lit_ci (c # s) = Cat (chr_ci c) (lit_ci s)"
  by (simp add: lit_ci_def)

lemma cat_Nil [simp]: "cat [] = Eps"
  by (simp add: cat_def)

lemma cat_Cons [simp]: "cat (r # rs) = Cat r (cat rs)"
  by (simp add: cat_def)

lemma lang_chr_ci: "w \<in> lang (chr_ci c) \<longleftrightarrow> (\<exists>x. w = [x] \<and> py_lower_char x = py_lower_char c)"
proof (cases w)
  case Nil
  then show ?thesis by (simp add: chr_ci_def)
next
  case (Cons x xs)
  then show ?thesis by (cases xs) (auto simp: chr_ci_def)
qed

lemma lang_Cat_chr_ci:
  "x # xs \<in> lang (Cat (chr_ci c) r) \<longleftrightarrow> py_lower_char x = py_lower_char c \<and> xs \<in> lang r"
proof
  assume "x # xs \<in> lang (Cat (chr_ci c) r)"
  then obtain u v where "x # xs = u @ v" "u \<in> lang (chr_ci c)" "v \<in> lang r" by auto
  then show "py_lower_char x = py_lower_char c \<and> xs \<in> lang r"
    by (auto simp: lang_chr_ci)
next
  assume a: "py_lower_char x = py_lower_char c \<and> xs \<in> lang r"
  then have "[x] \<in> lang (chr_ci c)" by (simp add: lang_chr_ci)
  moreover have "x # xs = [x] @ xs" by simp
  ultimately show "x # xs \<in> lang (Cat (chr_ci c) r)" using a unfolding lang.simps by blast
qed

lemma lang_lit_ci: "w \<in> lang (lit_ci s) \<longleftrightarrow> length w = length s \<and> py_lower w = py_lower s"
proof (induction s arbitrary: w)
  case Nil
  then show ?case by (auto simp: py_lower_def)
next
  case (Cons c s)
  show ?case
  proof (cases w)
    case Nil
    then show ?thesis by (auto simp: lang_chr_ci)
  next
    case (Cons x xs)
    have "w \<in> lang (lit_ci (c # s)) \<longleftrightarrow> py_lower_char x = py_lower_char c \<and> xs \<in> lang (lit_ci s)"
      unfolding Cons lit_ci_Cons by (rule lang_Cat_chr_ci)
    then show ?thesis unfolding Cons.IH Cons by (auto simp: py_lower_def)
  qed
qed

lemma lang_lit_ci_hd:
  assumes "u \<in> lang (lit_ci (c # s))"
  shows "u \<noteq> [] \<and> py_lower_char (hd u) = py_lower_char c"
  using assms unfolding lang_lit_ci by (cases u) (auto simp: py_lower_def)

lemma lower_s [simp]: "py_lower_char CHR ''s'' = CHR ''s''"
  by (simp add: py_lower_char_def ord_def Let_def)

lemma header_lang_hd:
  assumes "w \<in> lang HEADER_RE"
  shows "w \<noteq> [] \<and> py_lower_char (hd w) = CHR ''s''"
proof -
  from assms have "(\<exists>u v. w = u @ v \<and> u \<in> lang (lit_ci ''sr'')) \<or> w \<in> lang (lit_ci ''serial'')"
    unfolding HEADER_RE_def by (simp del: lit_ci_Cons) blast
  then show ?thesis
  proof
    assume "\<exists>u v. w = u @ v \<and> u \<in> lang (lit_ci ''sr'')"
    then obtain u v where w: "w = u @ v" and u: "u \<in> lang (lit_ci ''sr'')" by blast
    from lang_lit_ci_hd [OF u] w show ?thesis by simp
  next
    assume "w \<in> lang (lit_ci ''serial'')"
    from lang_lit_ci_hd [OF this] show ?thesis by simp
  qed
qed

lemma is_digit_lower: "is_digit c \<Longrightarrow> py_lower_char c = c"
  by (simp add: is_digit_def py_lower_char_def Let_def)

lemma not_digit_s [simp]: "\<not> is_digit CHR ''s''"
  by (simp add: is_digit_def ord_def)

lemma header_not_serial:
  assumes "re_match HEADER_RE c \<noteq> None"
  shows "\<not> is_serial_text c"
proof
  assume ser: "is_serial_text c"
  have bf: "bnd_free HEADER_RE" by (simp add: HEADER_RE_def chr_ci_def opt_def star_def)
  from assms match_at_lang [OF bf, of 0 c]
  obtain j where j: "py_slice 0 j c \<in> lang HEADER_RE" by (auto simp: re_match_def)
  have sl: "py_slice 0 j c = take j c" by (simp add: py_slice_def)
  from header_lang_hd [OF j] have t1: "take j c \<noteq> []"
    and t2: "py_lower_char (hd (take j c)) = CHR ''s''"
    unfolding sl by blast+
  from t1 have "0 < j" by (cases j) simp_all
  then have "hd (take j c) = hd c" by (rule hd_take)
  with t2 have s: "py_lower_char (hd c) = CHR ''s''" by simp
  from ser have "c \<noteq> []" "list_all is_digit c" by (auto simp: is_serial_text_def)
  then have d: "is_digit (hd c)" by (cases c) simp_all
  from is_digit_lower [OF d] s have "hd c = CHR ''s''" by simp
  with d show False by simp
qed

text \<open>
  Claim C4. The rows emitted are exactly the rows with at least two cells whose first
  cell is one to four digits, in page order; the serial of an emitted row is that first
  cell as it stands. A first cell that matches the header pattern is never such a serial,
  so a header row is left out; \<^verbatim>\<open>Sr No.\<close> is no serial. The instance below: the header
  row \<^verbatim>\<open>Sr No., Case No, Purpose\<close> and the row \<^verbatim>\<open>007, ABC/2020, Hearing\<close> give one row, with
  serial \<^verbatim>\<open>007\<close>.
\<close>

theorem schedule_rows_are_serial_rows:
  "(\<exists>rows. parse_cause_list_html tables = Inr rows
      \<and> map raw_cells rows = filter is_data_row (concat tables)
      \<and> rows = map (\<lambda>tds. row_of (hd tds) tds) (filter is_data_row (concat tables))
      \<and> (\<forall>r \<in> set rows. serial r = hd (raw_cells r) \<and> is_serial_text (serial r)
                         \<and> 2 \<le> length (raw_cells r) \<and> re_match HEADER_RE (serial r) = None))
   \<and> (\<forall>c. re_match HEADER_RE c \<noteq> None \<longrightarrow> \<not> is_serial_text c)
   \<and> \<not> is_serial_text ''Sr No.''"
proof (intro conjI)
  let ?rows = "map (\<lambda>tds. row_of (hd tds) tds) (filter is_data_row (concat tables))"
  have 1: "map raw_cells ?rows = filter is_data_row (concat tables)"
    by (simp add: row_of_def comp_def)
  have 2: "\<forall>r \<in> set ?rows. serial r = hd (raw_cells r) \<and> is_serial_text (serial r)
                         \<and> 2 \<le> length (raw_cells r) \<and> re_match HEADER_RE (serial r) = None"
  proof
    fix r assume "r \<in> set ?rows"
    then obtain tds where r: "r = row_of (hd tds) tds" and d: "is_data_row tds" by auto
    from d have s: "is_serial_text (hd tds)" and l: "2 \<le> length tds"
      by (simp_all add: is_data_row_def)
    from s header_not_serial [of "hd tds"] have "re_match HEADER_RE (hd tds) = None" by blast
    with s l show "serial r = hd (raw_cells r) \<and> is_serial_text (serial r)
                         \<and> 2 \<le> length (raw_cells r) \<and> re_match HEADER_RE (serial r) = None"
      by (simp add: r row_of_def)
  qed
  from 1 2 parse_cause_list_html_eq [of tables]
  show "\<exists>rows. parse_cause_list_html tables = Inr rows
      \<and> map raw_cells rows = filter is_data_row (concat tables)
      \<and> rows = map (\<lambda>tds. row_of (hd tds) tds) (filter is_data_row (concat tables))
      \<and> (\<forall>r \<in> set rows. serial r = hd (raw_cells r) \<and> is_serial_text (serial r)
                         \<and> 2 \<le> length (raw_cells r) \<and> re_match HEADER_RE (serial r) = None)"
    by blast
  show "\<forall>c. re_match HEADER_RE c \<noteq> None \<longrightarrow> \<not> is_serial_text c"
    using header_not_serial by blast
  show "\<not> is_serial_text ''Sr No.''"
    by (simp add: is_serial_text_def)
qed

theorem schedule_rows_are_serial_rows_witness:
  "parse_cause_list_html
      [[[''Sr No.'', ''Case No'', ''Purpose''], [''007'', ''ABC/2020'', ''Hearing'']]]
     = Inr [\<lparr>serial = ''007'', case_text = None, purpose = None, court_info = None,
             raw_cells = [''007'', ''ABC/2020'', ''Hearing'']\<rparr>]
   \<and> re_match HEADER_RE ''Sr No.'' \<noteq> None
   \<and> \<not> is_data_row [''Sr No.'', ''Case No'', ''Purpose'']
   \<and> is_data_row [''007'', ''ABC/2020'', ''Hearing'']"
proof -
  let ?tables = "[[[''Sr No.'', ''Case No'', ''Purpose''], [''007'', ''ABC/2020'', ''Hearing'']]]"
  have h: "re_match HEADER_RE ''Sr No.'' \<noteq> None" by code_simp
  have d0: "\<not> is_data_row [''Sr No.'', ''Case No'', ''Purpose'']"
    using schedule_rows_are_serial_rows [of ?tables] h by (simp add: is_data_row_def)
  have d1: "is_data_row [''007'', ''ABC/2020'', ''Hearing'']"
    by (simp add: is_data_row_def is_serial_text_def is_digit_def ord_def)
  have r: "row_of ''007'' [''007'', ''ABC/2020'', ''Hearing'']
             = \<lparr>serial = ''007'', case_text = None, purpose = None, court_info = None,
                raw_cells = [''007'', ''ABC/2020'', ''Hearing'']\<rparr>"
    by code_simp
  from schedule_rows_are_serial_rows [of ?tables] d0 d1 r h show ?thesis by simp
qed

text \<open>
  Claim C6. The extraction returns a sequence for every parsed page and never raises
  (the read of the first cell is guarded by the count of cells); for a page without
  tables, and for a page whose tables have no row of at least two cells that starts with
  one to four digits, the sequence is empty.
\<close>

theorem schedule_rows_total:
  "(\<exists>rows. parse_cause_list_html tables = Inr rows)
   \<and> parse_cause_list_html [] = Inr []
   \<and> ((\<forall>tds \<in> set (concat tables). \<not> is_data_row tds) \<longrightarrow> parse_cause_list_html tables = Inr [])"
proof (intro conjI impI)
  show "\<exists>rows. parse_cause_list_html tables = Inr rows"
    by (simp add: parse_cause_list_html_eq)
  show "parse_cause_list_html [] = Inr []"
    by (simp add: parse_cause_list_html_eq)
  assume "\<forall>tds \<in> set (concat tables). \<not> is_data_row tds"
  then have "filter is_data_row (concat tables) = []"
    by (simp only: filter_empty_conv)
  then show "parse_cause_list_html tables = Inr []"
    by (simp only: parse_cause_list_html_eq list.map)
qed

theorem schedule_rows_total_witness:
  "parse_cause_list_html [[[''Sr No.'', ''Case No'', ''Purpose''], [''7''], [], [''12a'', ''x'']], []]
     = Inr []"
proof -
  let ?tables = "[[[''Sr No.'', ''Case No'', ''Purpose''], [''7''], [], [''12a'', ''x'']], []]"
  have "\<forall>tds \<in> set (concat ?tables). \<not> is_data_row tds"
    by (simp add: is_data_row_def is_serial_text_def is_digit_def ord_def)
  with schedule_rows_total [of ?tables] show ?thesis by blast
qed

section \<open>The case status page: properties\<close>

subsection \<open>Matches of patterns without groups\<close>

lemma rmatch_grp_free:
  "grp_free r \<Longrightarrow> (j, c') \<in> set (rmatch r t (i, c)) \<Longrightarrow> c' = c"
proof (induction r arbitrary: i c j c')
  case (Cat a b)
  from Cat.prems(2) obtain k ck where 1: "(k, ck) \<in> set (rmatch a t (i, c))"
    and 2: "(j, c') \<in> set (rmatch b t (k, ck))"
    unfolding rmatch_Cat_mem by blast
  from Cat.prems(1) Cat.IH(1) [OF _ 1] Cat.IH(2) [OF _ 2] show ?case by simp
qed (auto simp: Let_def split: if_splits)

lemma rmatch_mem_grp_free:
  assumes "grp_free r" "bnd_free r" "i \<le> length t"
  shows "(j, c') \<in> set (rmatch r t (i, c))
           \<longleftrightarrow> c' = c \<and> i \<le> j \<and> j \<le> length t \<and> py_slice i j t \<in> lang r"
proof
  assume m: "(j, c') \<in> set (rmatch r t (i, c))"
  then have "j \<in> fst ` set (rmatch r t (i, c))" unfolding fst_image_mem by blast
  with rmatch_ends [OF assms(2,3), of c] rmatch_grp_free [OF assms(1) m]
  show "c' = c \<and> i \<le> j \<and> j \<le> length t \<and> py_slice i j t \<in> lang r" by simp
next
  assume a: "c' = c \<and> i \<le> j \<and> j \<le> length t \<and> py_slice i j t \<in> lang r"
  with rmatch_ends [OF assms(2,3), of c] have "j \<in> fst ` set (rmatch r t (i, c))" by simp
  then obtain c'' where m: "(j, c'') \<in> set (rmatch r t (i, c))" unfolding fst_image_mem by blast
  from rmatch_grp_free [OF assms(1) m] a m show "(j, c') \<in> set (rmatch r t (i, c))" by simp
qed

lemma rmatch_Grp_mem:
  "(j, c') \<in> set (rmatch (Grp g r) t (i, c))
     \<longleftrightarrow> (\<exists>c''. c' = (g, i, j) # c'' \<and> (j, c'') \<in> set (rmatch r t (i, c)))"
  by force

lemma rmatch_caps_kept:
  "(j, c') \<in> set (rmatch r t (i, c)) \<Longrightarrow> map_of c g \<noteq> None \<Longrightarrow> map_of c' g \<noteq> None"
proof (induction r arbitrary: i c j c')
  case (Cat a b)
  from Cat.prems(1) obtain k ck where 1: "(k, ck) \<in> set (rmatch a t (i, c))"
    and 2: "(j, c') \<in> set (rmatch b t (k, ck))"
    unfolding rmatch_Cat_mem by blast
  from Cat.IH(1) [OF 1 Cat.prems(2)] Cat.IH(2) [OF 2] show ?case by blast
next
  case (Grp g' r)
  from Grp.prems(1) obtain c'' where c': "c' = (g', i, j) # c''"
    and 1: "(j, c'') \<in> set (rmatch r t (i, c))"
    unfolding rmatch_Grp_mem by blast
  from Grp.IH [OF 1 Grp.prems(2)] show ?case unfolding c' by simp
qed (auto simp: Let_def split: if_splits)

lemma group_takes_part:
  "has_group g r \<Longrightarrow> (j, c') \<in> set (rmatch r t (i, c)) \<Longrightarrow> map_of c' g \<noteq> None"
proof (induction r arbitrary: i c j c')
  case (Cat a b)
  from Cat.prems(2) obtain k ck where 1: "(k, ck) \<in> set (rmatch a t (i, c))"
    and 2: "(j, c') \<in> set (rmatch b t (k, ck))"
    unfolding rmatch_Cat_mem by blast
  show ?case
  proof (cases "has_group g a")
    case True
    from Cat.IH(1) [OF True 1] have "map_of ck g \<noteq> None" .
    with 2 show ?thesis by (rule rmatch_caps_kept)
  next
    case False
    with Cat.prems(1) have "has_group g b" by simp
    from Cat.IH(2) [OF this 2] show ?thesis .
  qed
next
  case (Or a b)
  from Or.prems have "has_group g a" "has_group g b"
    and "(j, c') \<in> set (rmatch a t (i, c)) \<or> (j, c') \<in> set (rmatch b t (i, c))"
    by simp_all
  with Or.IH show ?case by blast
next
  case (Grp g' r)
  from Grp.prems(2) obtain c'' where c': "c' = (g', i, j) # c''"
    and 1: "(j, c'') \<in> set (rmatch r t (i, c))"
    unfolding rmatch_Grp_mem by blast
  show ?case
  proof (cases "g' = g")
    case True
    then show ?thesis unfolding c' by simp
  next
    case False
    with Grp.prems(1) have "has_group g r" by simp
    from Grp.IH [OF this 1] show ?thesis unfolding c' by simp
  qed
qed simp_all

lemma source_groups:
  "has_group 2 CNR_RE" "has_group 2 CASE_NO_RE" "has_group 2 COURT_RE" "has_group 2 PURPOSE_RE"
  "has_group 1 DATE_RE"
  by (simp_all add: CNR_RE_def CASE_NO_RE_def COURT_RE_def PURPOSE_RE_def DATE_RE_def
        del: lit_ci_Cons)

lemma lang_Cls_exact: "w \<in> lang (Cls p n (Some n)) \<longleftrightarrow> length w = n \<and> list_all p w"
  by auto

lemma lang_chr: "w \<in> lang (chr c) \<longleftrightarrow> w = [c]"
proof (cases w)
  case Nil
  then show ?thesis by (simp add: chr_def)
next
  case (Cons x xs)
  then show ?thesis by (cases xs) (auto simp: chr_def)
qed

subsection \<open>The scan for dates\<close>

lemma length_10_conv:
  "length w = 10 \<longleftrightarrow> (\<exists>a b c d e f g h i j. w = [a, b, c, d, e, f, g, h, i, j])"
  by (auto simp: numeral_eq_Suc length_Suc_conv)

lemma lang_Cat_exact:
  "w \<in> lang (Cat (Cls p n (Some n)) r)
     \<longleftrightarrow> n \<le> length w \<and> list_all p (take n w) \<and> drop n w \<in> lang r"
proof
  assume "w \<in> lang (Cat (Cls p n (Some n)) r)"
  then obtain u v where "w = u @ v" "length u = n" "list_all p u" "v \<in> lang r" by auto
  then show "n \<le> length w \<and> list_all p (take n w) \<and> drop n w \<in> lang r" by simp
next
  assume a: "n \<le> length w \<and> list_all p (take n w) \<and> drop n w \<in> lang r"
  then have "take n w \<in> lang (Cls p n (Some n))" by simp
  moreover have "w = take n w @ drop n w" by simp
  ultimately show "w \<in> lang (Cat (Cls p n (Some n)) r)"
    using a unfolding lang.simps by blast
qed

lemma is_date_text_length: "is_date_text w \<Longrightarrow> length w = 10"
  by (simp add: is_date_text_def split: list.splits)

lemma date_lang: "w \<in> lang DATE_RE \<longleftrightarrow> is_date_text w"
proof
  assume "w \<in> lang DATE_RE"
  then have l: "w \<in> lang (Cat (Cls is_digit 2 (Some 2)) (Cat (Cls (\<lambda>x. x = CHR ''-'') 1 (Some 1))
       (Cat (Cls is_digit 2 (Some 2)) (Cat (Cls (\<lambda>x. x = CHR ''-'') 1 (Some 1))
       (Cat (Cls is_digit 4 (Some 4)) Eps)))))"
    by (simp add: DATE_RE_def chr_def)
  then have "4 \<le> length w - 6 \<and> length w \<le> 10" unfolding lang_Cat_exact by simp
  then have "length w = 10" by arith
  then obtain a b c d e f g h i j where w: "w = [a, b, c, d, e, f, g, h, i, j]"
    unfolding length_10_conv by blast
  from l show "is_date_text w" unfolding lang_Cat_exact w by (simp add: is_date_text_def)
next
  assume d: "is_date_text w"
  from is_date_text_length [OF d] obtain a b c d e f g h i j where w: "w = [a, b, c, d, e, f, g, h, i, j]"
    unfolding length_10_conv by blast
  have "w \<in> lang (Cat (Cls is_digit 2 (Some 2)) (Cat (Cls (\<lambda>x. x = CHR ''-'') 1 (Some 1))
       (Cat (Cls is_digit 2 (Some 2)) (Cat (Cls (\<lambda>x. x = CHR ''-'') 1 (Some 1))
       (Cat (Cls is_digit 4 (Some 4)) Eps)))))"
    using d unfolding lang_Cat_exact w by (simp add: is_date_text_def)
  then show "w \<in> lang DATE_RE" by (simp add: DATE_RE_def chr_def)
qed

lemma is_date_at_bound: "is_date_at t p \<Longrightarrow> p + 10 \<le> length t"
proof -
  assume "is_date_at t p"
  then have "length (py_slice p (p + 10) t) = 10"
    unfolding is_date_at_def by (rule is_date_text_length)
  then show ?thesis by (simp add: py_slice_def min_def split: if_splits)
qed

lemma rmatch_date_mem:
  assumes "i \<le> length t"
  shows "(j, c') \<in> set (rmatch DATE_RE t (i, []))
           \<longleftrightarrow> is_date_at t i \<and> j = i + 10 \<and> c' = [(1, i, i + 10)]"
proof -
  obtain B where B: "DATE_RE = Grp 1 B" and gf: "grp_free B" and bf: "bnd_free B"
    by (simp add: DATE_RE_def chr_def)
  have lB: "w \<in> lang B \<longleftrightarrow> is_date_text w" for w
    using date_lang [of w] by (simp add: B)
  have "(j, c') \<in> set (rmatch DATE_RE t (i, []))
          \<longleftrightarrow> c' = [(1, i, j)] \<and> i \<le> j \<and> j \<le> length t \<and> is_date_text (py_slice i j t)"
    unfolding B rmatch_Grp_mem rmatch_mem_grp_free [OF gf bf assms] lB by auto
  also have "\<dots> \<longleftrightarrow> is_date_at t i \<and> j = i + 10 \<and> c' = [(1, i, i + 10)]"
  proof
    assume a: "c' = [(1, i, j)] \<and> i \<le> j \<and> j \<le> length t \<and> is_date_text (py_slice i j t)"
    then have "length (py_slice i j t) = 10" by (intro is_date_text_length) simp
    moreover from a have "length (py_slice i j t) = j - i" by (intro py_slice_length) simp
    ultimately have "j = i + 10" using a by simp
    with a show "is_date_at t i \<and> j = i + 10 \<and> c' = [(1, i, i + 10)]"
      by (simp add: is_date_at_def)
  next
    assume a: "is_date_at t i \<and> j = i + 10 \<and> c' = [(1, i, i + 10)]"
    with is_date_at_bound [of t i] show
      "c' = [(1, i, j)] \<and> i \<le> j \<and> j \<le> length t \<and> is_date_text (py_slice i j t)"
      by (simp add: is_date_at_def)
  qed
  finally show ?thesis .
qed

lemma match_at_date:
  assumes "i \<le> length t"
  shows "match_at DATE_RE t i False = (if is_date_at t i then Some (date_match i) else None)"
proof (cases "rmatch DATE_RE t (i, [])")
  case Nil
  then have "\<not> is_date_at t i"
    using rmatch_date_mem [OF assms, of "i + 10" "[(1, i, i + 10)]"] by simp
  with Nil show ?thesis by (simp add: match_at_def)
next
  case (Cons x xs)
  obtain j c' where x: "x = (j, c')" by (cases x)
  have "(j, c') \<in> set (rmatch DATE_RE t (i, []))" unfolding Cons x by simp
  with rmatch_date_mem [OF assms] have "is_date_at t i" "j = i + 10" "c' = [(1, i, i + 10)]"
    by simp_all
  with Cons x show ?thesis by (simp add: match_at_def date_match_def)
qed

lemma search_date_None:
  assumes "pos \<le> length t" "re_search_from DATE_RE t pos False = None"
  shows "\<not> (pos \<le> p \<and> is_date_at t p)"
proof
  assume a: "pos \<le> p \<and> is_date_at t p"
  with is_date_at_bound [of t p] have "p \<in> set [pos..<Suc (length t)]" by simp
  with assms(2) have "match_at DATE_RE t p False = None"
    unfolding re_search_from_no_adv first_some_None_iff by blast
  moreover from a is_date_at_bound [of t p] have "p \<le> length t" by simp
  ultimately show False using a by (simp add: match_at_date)
qed

lemma search_date_Some:
  assumes "pos \<le> length t" "re_search_from DATE_RE t pos False = Some m"
  shows "\<exists>i. m = date_match i \<and> pos \<le> i \<and> is_date_at t i
            \<and> (\<forall>k. pos \<le> k \<and> k < i \<longrightarrow> \<not> is_date_at t k)"
proof -
  from assms(2) first_some_upt_SomeD [of "\<lambda>i. match_at DATE_RE t i False" pos "Suc (length t)" m]
  obtain i where i: "pos \<le> i" "i < Suc (length t)" "match_at DATE_RE t i False = Some m"
    and least: "\<forall>k. pos \<le> k \<and> k < i \<longrightarrow> match_at DATE_RE t k False = None"
    unfolding re_search_from_no_adv by blast
  from i have m: "m = date_match i" and d: "is_date_at t i"
    by (simp_all add: match_at_date split: if_splits)
  have "\<forall>k. pos \<le> k \<and> k < i \<longrightarrow> \<not> is_date_at t k"
  proof (intro allI impI)
    fix k assume k: "pos \<le> k \<and> k < i"
    with least have "match_at DATE_RE t k False = None" by blast
    moreover from k i have "k \<le> length t" by simp
    ultimately show "\<not> is_date_at t k" by (simp add: match_at_date split: if_splits)
  qed
  with m d i show ?thesis by blast
qed

lemma finditer_date_from:
  "pos \<le> length t \<Longrightarrow>
     \<exists>ps. re_finditer_from DATE_RE t pos False = map date_match ps
        \<and> scan_order pos ps
        \<and> (\<forall>p \<in> set ps. is_date_at t p)
        \<and> (\<forall>p. pos \<le> p \<and> is_date_at t p \<longrightarrow> (\<exists>q \<in> set ps. q \<le> p \<and> p < q + 10))"
proof (induction "length t - pos" arbitrary: pos rule: less_induct)
  case less
  show ?case
  proof (cases "re_search_from DATE_RE t pos False")
    case None
    then have "re_finditer_from DATE_RE t pos False = []"
      by (subst re_finditer_from.simps) simp
    moreover have "\<forall>p. pos \<le> p \<and> is_date_at t p \<longrightarrow> (\<exists>q \<in> set []. q \<le> p \<and> p < q + 10)"
      using search_date_None [OF less.prems None] by blast
    ultimately show ?thesis by (intro exI [of _ "[]"]) simp
  next
    case (Some m)
    from search_date_Some [OF less.prems Some] obtain i where m: "m = date_match i"
      and i: "pos \<le> i" "is_date_at t i"
      and least: "\<forall>k. pos \<le> k \<and> k < i \<longrightarrow> \<not> is_date_at t k"
      by blast
    from is_date_at_bound [OF i(2)] have le: "i + 10 \<le> length t" .
    have it: "re_finditer_from DATE_RE t pos False = date_match i # re_finditer_from DATE_RE t (i + 10) False"
      using Some by (subst re_finditer_from.simps) (simp add: m date_match_def)
    have "length t - (i + 10) < length t - pos" using i(1) le by simp
    from less.hyps [OF this le] obtain ps where
      ps: "re_finditer_from DATE_RE t (i + 10) False = map date_match ps"
        "scan_order (i + 10) ps" "\<forall>p \<in> set ps. is_date_at t p"
        "\<forall>p. i + 10 \<le> p \<and> is_date_at t p \<longrightarrow> (\<exists>q \<in> set ps. q \<le> p \<and> p < q + 10)"
      by blast
    have cover: "\<forall>p. pos \<le> p \<and> is_date_at t p \<longrightarrow> (\<exists>q \<in> set (i # ps). q \<le> p \<and> p < q + 10)"
    proof (intro allI impI)
      fix p assume p: "pos \<le> p \<and> is_date_at t p"
      with least have ip: "i \<le> p" by (meson not_le_imp_less)
      show "\<exists>q \<in> set (i # ps). q \<le> p \<and> p < q + 10"
      proof (cases "p < i + 10")
        case True
        with ip show ?thesis by simp
      next
        case False
        then have "i + 10 \<le> p \<and> is_date_at t p" using p by simp
        with ps(4) obtain q where "q \<in> set ps" "q \<le> p \<and> p < q + 10" by blast
        then show ?thesis by auto
      qed
    qed
    show ?thesis
      using it ps(1,2,3) i cover by (intro exI [of _ "i # ps"]) simp
  qed
qed

subsection \<open>Labelled values\<close>

lemma drop_eq_append:
  assumes "drop i t = u @ v" "i \<le> length t"
  shows "i + length u \<le> length t" "drop (i + length u) t = v" "py_slice i (i + length u) t = u"
proof -
  have "length (drop i t) = length u + length v" using assms(1) by simp
  then show "i + length u \<le> length t" using assms(2) by simp
  have "drop (i + length u) t = drop (length u) (drop i t)" by (simp add: add.commute)
  then show "drop (i + length u) t = v" using assms(1) by simp
  show "py_slice i (i + length u) t = u" using assms(1) by (simp add: py_slice_def)
qed

lemma drop_split:
  assumes "i \<le> k"
  shows "drop i t = py_slice i k t @ drop k t"
proof -
  have "drop (k - i) (drop i t) = drop k t" using assms by simp
  with append_take_drop_id [of "k - i" "drop i t"] show ?thesis
    by (simp only: py_slice_def)
qed

lemma step_free:
  assumes "grp_free a" "bnd_free a" "i \<le> length t"
  shows "(j, c') \<in> set (rmatch (Cat a b) t (i, c))
     \<longleftrightarrow> (\<exists>u v. drop i t = u @ v \<and> u \<in> lang a \<and> (j, c') \<in> set (rmatch b t (i + length u, c)))"
proof
  assume "(j, c') \<in> set (rmatch (Cat a b) t (i, c))"
  then obtain k ck where 1: "(k, ck) \<in> set (rmatch a t (i, c))"
    and 2: "(j, c') \<in> set (rmatch b t (k, ck))"
    unfolding rmatch_Cat_mem by blast
  from 1 have ck: "ck = c" and k: "i \<le> k" "k \<le> length t" and l: "py_slice i k t \<in> lang a"
    unfolding rmatch_mem_grp_free [OF assms] by simp_all
  define u where "u = py_slice i k t"
  have lu: "length u = k - i" unfolding u_def using k by (simp add: py_slice_def)
  have "drop i t = u @ drop k t"
    unfolding u_def using k(1) by (rule drop_split)
  moreover have "i + length u = k" using lu k by simp
  ultimately show "\<exists>u v. drop i t = u @ v \<and> u \<in> lang a \<and> (j, c') \<in> set (rmatch b t (i + length u, c))"
    using l 2 ck unfolding u_def [symmetric] by blast
next
  assume "\<exists>u v. drop i t = u @ v \<and> u \<in> lang a \<and> (j, c') \<in> set (rmatch b t (i + length u, c))"
  then obtain u v where d: "drop i t = u @ v" and u: "u \<in> lang a"
    and 2: "(j, c') \<in> set (rmatch b t (i + length u, c))"
    by blast
  from drop_eq_append [OF d assms(3)] u
  have "(i + length u, c) \<in> set (rmatch a t (i, c))"
    unfolding rmatch_mem_grp_free [OF assms] by simp
  with 2 show "(j, c') \<in> set (rmatch (Cat a b) t (i, c))"
    unfolding rmatch_Cat_mem by blast
qed

lemma step_group:
  assumes "grp_free a" "bnd_free a" "i \<le> length t"
  shows "(j, c') \<in> set (rmatch (Cat (Grp g a) b) t (i, c))
     \<longleftrightarrow> (\<exists>u v. drop i t = u @ v \<and> u \<in> lang a
            \<and> (j, c') \<in> set (rmatch b t (i + length u, (g, i, i + length u) # c)))"
proof
  assume "(j, c') \<in> set (rmatch (Cat (Grp g a) b) t (i, c))"
  then obtain k ck where 1: "(k, ck) \<in> set (rmatch (Grp g a) t (i, c))"
    and 2: "(j, c') \<in> set (rmatch b t (k, ck))"
    unfolding rmatch_Cat_mem by blast
  from 1 obtain c'' where ck: "ck = (g, i, k) # c''" and 3: "(k, c'') \<in> set (rmatch a t (i, c))"
    unfolding rmatch_Grp_mem by blast
  from 3 have c'': "c'' = c" and k: "i \<le> k" "k \<le> length t" and l: "py_slice i k t \<in> lang a"
    unfolding rmatch_mem_grp_free [OF assms] by simp_all
  define u where "u = py_slice i k t"
  have lu: "length u = k - i" unfolding u_def using k by (simp add: py_slice_def)
  have "drop i t = u @ drop k t"
    unfolding u_def using k(1) by (rule drop_split)
  moreover have "i + length u = k" using lu k by simp
  ultimately show "\<exists>u v. drop i t = u @ v \<and> u \<in> lang a
            \<and> (j, c') \<in> set (rmatch b t (i + length u, (g, i, i + length u) # c))"
    using l 2 ck c'' unfolding u_def [symmetric] by blast
next
  assume "\<exists>u v. drop i t = u @ v \<and> u \<in> lang a
            \<and> (j, c') \<in> set (rmatch b t (i + length u, (g, i, i + length u) # c))"
  then obtain u v where d: "drop i t = u @ v" and u: "u \<in> lang a"
    and 2: "(j, c') \<in> set (rmatch b t (i + length u, (g, i, i + length u) # c))"
    by blast
  from drop_eq_append [OF d assms(3)] u
  have "(i + length u, c) \<in> set (rmatch a t (i, c))"
    unfolding rmatch_mem_grp_free [OF assms] by simp
  then have "(i + length u, (g, i, i + length u) # c) \<in> set (rmatch (Grp g a) t (i, c))"
    unfolding rmatch_Grp_mem by blast
  with 2 show "(j, c') \<in> set (rmatch (Cat (Grp g a) b) t (i, c))"
    unfolding rmatch_Cat_mem by blast
qed

lemma lang_star: "w \<in> lang (star p) \<longleftrightarrow> list_all p w"
  by (simp add: star_def)

lemma lang_opt_sep: "w \<in> lang (opt is_sep) \<longleftrightarrow> w \<in> {[], '':'', ''-''}"
proof (cases w)
  case Nil
  then show ?thesis by (simp add: opt_def)
next
  case (Cons x xs)
  then show ?thesis by (cases xs) (auto simp: opt_def is_sep_def)
qed

lemma free_star [simp]: "grp_free (star p)" "bnd_free (star p)"
  by (simp_all add: star_def)

lemma free_opt [simp]: "grp_free (opt p)" "bnd_free (opt p)"
  by (simp_all add: opt_def)

lemma labelled_mem:
  assumes L: "grp_free L" "bnd_free L" and X: "grp_free X" "bnd_free X" and i: "i \<le> length t"
  shows "(j, c') \<in> set (rmatch (cat [Grp 1 L, star py_isspace, opt is_sep, star py_isspace, Grp 2 X]) t (i, []))
     \<longleftrightarrow> (\<exists>lab ws1 sep ws2 g post.
            drop i t = lab @ ws1 @ sep @ ws2 @ g @ post
          \<and> lab \<in> lang L \<and> list_all py_isspace ws1 \<and> sep \<in> {[], '':'', ''-''}
          \<and> list_all py_isspace ws2 \<and> g \<in> lang X
          \<and> j = i + length lab + length ws1 + length sep + length ws2 + length g
          \<and> c' = [(2, i + length lab + length ws1 + length sep + length ws2, j), (1, i, i + length lab)])"
    (is "?lhs \<longleftrightarrow> ?rhs")
proof
  assume ?lhs
  then have m0: "(j, c') \<in> set (rmatch (Cat (Grp 1 L) (Cat (star py_isspace) (Cat (opt is_sep)
      (Cat (star py_isspace) (Cat (Grp 2 X) Eps))))) t (i, []))"
    by simp
  from m0 obtain lab v1 where d1: "drop i t = lab @ v1" and l1: "lab \<in> lang L"
    and m1: "(j, c') \<in> set (rmatch (Cat (star py_isspace) (Cat (opt is_sep)
      (Cat (star py_isspace) (Cat (Grp 2 X) Eps)))) t (i + length lab, [(1, i, i + length lab)]))"
    unfolding step_group [OF L i] by blast
  define i1 where "i1 = i + length lab"
  from drop_eq_append [OF d1 i] have b1: "i1 \<le> length t" and e1: "drop i1 t = v1"
    by (simp_all add: i1_def)
  from m1 obtain ws1 v2 where d2: "drop i1 t = ws1 @ v2" and l2: "ws1 \<in> lang (star py_isspace)"
    and m2: "(j, c') \<in> set (rmatch (Cat (opt is_sep)
      (Cat (star py_isspace) (Cat (Grp 2 X) Eps))) t (i1 + length ws1, [(1, i, i1)]))"
    unfolding i1_def [symmetric] step_free [OF free_star b1] by blast
  define i2 where "i2 = i1 + length ws1"
  from drop_eq_append [OF d2 b1] have b2: "i2 \<le> length t" and e2: "drop i2 t = v2"
    by (simp_all add: i2_def)
  from m2 obtain sep v3 where d3: "drop i2 t = sep @ v3" and l3: "sep \<in> lang (opt is_sep)"
    and m3: "(j, c') \<in> set (rmatch (Cat (star py_isspace) (Cat (Grp 2 X) Eps)) t
               (i2 + length sep, [(1, i, i1)]))"
    unfolding i2_def [symmetric] step_free [OF free_opt b2] by blast
  define i3 where "i3 = i2 + length sep"
  from drop_eq_append [OF d3 b2] have b3: "i3 \<le> length t" and e3: "drop i3 t = v3"
    by (simp_all add: i3_def)
  from m3 obtain ws2 v4 where d4: "drop i3 t = ws2 @ v4" and l4: "ws2 \<in> lang (star py_isspace)"
    and m4: "(j, c') \<in> set (rmatch (Cat (Grp 2 X) Eps) t (i3 + length ws2, [(1, i, i1)]))"
    unfolding i3_def [symmetric] step_free [OF free_star b3] by blast
  define i4 where "i4 = i3 + length ws2"
  from drop_eq_append [OF d4 b3] have b4: "i4 \<le> length t" and e4: "drop i4 t = v4"
    by (simp_all add: i4_def)
  from m4 obtain g post where d5: "drop i4 t = g @ post" and l5: "g \<in> lang X"
    and m5: "(j, c') \<in> set (rmatch Eps t (i4 + length g, [(2, i4, i4 + length g), (1, i, i1)]))"
    unfolding i4_def [symmetric] step_group [OF X b4] by blast
  from m5 have j: "j = i4 + length g" and c': "c' = [(2, i4, i4 + length g), (1, i, i1)]"
    by simp_all
  have "drop i t = lab @ ws1 @ sep @ ws2 @ g @ post"
    using d1 d2 d3 d4 d5 e1 e2 e3 e4 by simp
  moreover have "j = i + length lab + length ws1 + length sep + length ws2 + length g"
    by (simp add: j i4_def i3_def i2_def i1_def)
  moreover have "c' = [(2, i + length lab + length ws1 + length sep + length ws2, j), (1, i, i + length lab)]"
    by (simp add: c' j i4_def i3_def i2_def i1_def)
  ultimately show ?rhs
    using l1 l2 l3 l5 l4 unfolding lang_star lang_opt_sep by blast
next
  assume ?rhs
  then obtain lab ws1 sep ws2 g post where
      d: "drop i t = lab @ ws1 @ sep @ ws2 @ g @ post"
      and l1: "lab \<in> lang L" and l2: "list_all py_isspace ws1" and l3: "sep \<in> {[], '':'', ''-''}"
      and l4: "list_all py_isspace ws2" and l5: "g \<in> lang X"
      and j: "j = i + length lab + length ws1 + length sep + length ws2 + length g"
      and c': "c' = [(2, i + length lab + length ws1 + length sep + length ws2, j), (1, i, i + length lab)]"
    by blast
  define i1 where "i1 = i + length lab"
  define i2 where "i2 = i1 + length ws1"
  define i3 where "i3 = i2 + length sep"
  define i4 where "i4 = i3 + length ws2"
  from drop_eq_append [OF d i] have b1: "i1 \<le> length t"
    and e1: "drop i1 t = ws1 @ sep @ ws2 @ g @ post" by (simp_all add: i1_def)
  from drop_eq_append [OF e1 b1] have b2: "i2 \<le> length t"
    and e2: "drop i2 t = sep @ ws2 @ g @ post" by (simp_all add: i2_def)
  from drop_eq_append [OF e2 b2] have b3: "i3 \<le> length t"
    and e3: "drop i3 t = ws2 @ g @ post" by (simp_all add: i3_def)
  from drop_eq_append [OF e3 b3] have b4: "i4 \<le> length t"
    and e4: "drop i4 t = g @ post" by (simp_all add: i4_def)
  have jj: "j = i4 + length g" by (simp add: j i4_def i3_def i2_def i1_def)
  have cc: "c' = [(2, i4, i4 + length g), (1, i, i1)]"
    by (simp add: c' j i4_def i3_def i2_def i1_def)
  have m5: "(j, c') \<in> set (rmatch Eps t (i4 + length g, [(2, i4, i4 + length g), (1, i, i1)]))"
    by (simp add: jj cc)
  from e4 l5 m5 have m4: "(j, c') \<in> set (rmatch (Cat (Grp 2 X) Eps) t (i4, [(1, i, i1)]))"
    unfolding step_group [OF X b4] by blast
  from e3 l4 m4 have m3: "(j, c') \<in> set (rmatch (Cat (star py_isspace) (Cat (Grp 2 X) Eps)) t
               (i3, [(1, i, i1)]))"
    unfolding step_free [OF free_star b3] lang_star i4_def by blast
  from e2 l3 m3 have m2: "(j, c') \<in> set (rmatch (Cat (opt is_sep)
      (Cat (star py_isspace) (Cat (Grp 2 X) Eps))) t (i2, [(1, i, i1)]))"
    unfolding step_free [OF free_opt b2] lang_opt_sep i3_def by blast
  from e1 l2 m2 have m1: "(j, c') \<in> set (rmatch (Cat (star py_isspace) (Cat (opt is_sep)
      (Cat (star py_isspace) (Cat (Grp 2 X) Eps)))) t (i1, [(1, i, i1)]))"
    unfolding step_free [OF free_star b1] lang_star i2_def by blast
  from d l1 m1 have "(j, c') \<in> set (rmatch (Cat (Grp 1 L) (Cat (star py_isspace) (Cat (opt is_sep)
      (Cat (star py_isspace) (Cat (Grp 2 X) Eps))))) t (i, []))"
    unfolding step_group [OF L i] i1_def by blast
  then show ?lhs by simp
qed

lemma match_at_None_iff: "match_at r t i False = None \<longleftrightarrow> rmatch r t (i, []) = []"
  by (auto simp: match_at_def split: list.splits)

lemma labelled_match_at_None:
  assumes L: "grp_free L" "bnd_free L" and X: "grp_free X" "bnd_free X" and i: "i \<le> length t"
  shows "match_at (cat [Grp 1 L, star py_isspace, opt is_sep, star py_isspace, Grp 2 X]) t i False = None
           \<longleftrightarrow> (\<forall>g. \<not> labelled_value (lang L) (lang X) (drop i t) g)"
proof -
  define R where "R = cat [Grp 1 L, star py_isspace, opt is_sep, star py_isspace, Grp 2 X]"
  note mem = labelled_mem [OF L X i, folded R_def]
  have "match_at R t i False = None \<longleftrightarrow> (\<forall>g. \<not> labelled_value (lang L) (lang X) (drop i t) g)"
  proof
    assume n: "match_at R t i False = None"
    show "\<forall>g. \<not> labelled_value (lang L) (lang X) (drop i t) g"
    proof (intro allI notI)
      fix g assume "labelled_value (lang L) (lang X) (drop i t) g"
      then obtain lab ws1 sep ws2 post where
        "drop i t = lab @ ws1 @ sep @ ws2 @ g @ post" "lab \<in> lang L" "list_all py_isspace ws1"
        "sep \<in> {[], '':'', ''-''}" "list_all py_isspace ws2" "g \<in> lang X"
        unfolding labelled_value_def by blast
      then have "(i + length lab + length ws1 + length sep + length ws2 + length g,
                  [(2, i + length lab + length ws1 + length sep + length ws2,
                       i + length lab + length ws1 + length sep + length ws2 + length g),
                   (1, i, i + length lab)])
         \<in> set (rmatch R t (i, []))"
        unfolding mem by blast
      with n show False unfolding match_at_None_iff by simp
    qed
  next
    assume r: "\<forall>g. \<not> labelled_value (lang L) (lang X) (drop i t) g"
    show "match_at R t i False = None"
    proof (rule ccontr)
      assume "match_at R t i False \<noteq> None"
      then obtain x xs where "rmatch R t (i, []) = x # xs"
        unfolding match_at_None_iff by (cases "rmatch R t (i, [])") simp_all
      then have xin: "x \<in> set (rmatch R t (i, []))" by simp
      obtain j c' where "x = (j, c')" by (cases x)
      with xin have "(j, c') \<in> set (rmatch R t (i, []))" by simp
      then obtain g where "labelled_value (lang L) (lang X) (drop i t) g"
        unfolding mem labelled_value_def by blast
      with r show False by blast
    qed
  qed
  then show ?thesis unfolding R_def .
qed

lemma labelled_match_at_Some:
  assumes L: "grp_free L" "bnd_free L" and X: "grp_free X" "bnd_free X" and i: "i \<le> length t"
    and m: "match_at (cat [Grp 1 L, star py_isspace, opt is_sep, star py_isspace, Grp 2 X]) t i False = Some m"
  shows "m_start m = i \<and> labelled_value (lang L) (lang X) (drop i t) (group t m 2)"
proof -
  define R where "R = cat [Grp 1 L, star py_isspace, opt is_sep, star py_isspace, Grp 2 X]"
  note mem = labelled_mem [OF L X i, folded R_def]
  from m have m': "match_at R t i False = Some m" unfolding R_def .
  from match_at_SomeD [OF m'] have s: "m_start m = i"
    and mm: "(m_end m, m_caps m) \<in> set (rmatch R t (i, []))"
    by simp_all
  from mm obtain lab ws1 sep ws2 g post where
      d: "drop i t = lab @ ws1 @ sep @ ws2 @ g @ post"
      and l: "lab \<in> lang L" "list_all py_isspace ws1" "sep \<in> {[], '':'', ''-''}"
        "list_all py_isspace ws2" "g \<in> lang X"
      and c: "m_caps m = [(2, i + length lab + length ws1 + length sep + length ws2, m_end m), (1, i, i + length lab)]"
      and j: "m_end m = i + length lab + length ws1 + length sep + length ws2 + length g"
    unfolding mem by blast
  have d': "drop i t = (lab @ ws1 @ sep @ ws2) @ g @ post" using d by simp
  from drop_eq_append [OF d' i]
  have b: "i + length (lab @ ws1 @ sep @ ws2) \<le> length t"
    and e: "drop (i + length (lab @ ws1 @ sep @ ws2)) t = g @ post"
    by blast+
  define k where "k = i + length (lab @ ws1 @ sep @ ws2)"
  have k: "k = i + length lab + length ws1 + length sep + length ws2" by (simp add: k_def)
  have "py_slice k (k + length g) t = g"
    using drop_eq_append(3) [OF e [folded k_def] b [folded k_def]] .
  moreover have "group t m 2 = py_slice k (k + length g) t"
    by (simp add: group_def c j k)
  ultimately have "group t m 2 = g" by simp
  with d l s show ?thesis unfolding labelled_value_def by blast
qed

lemma labelled_search_None:
  assumes L: "grp_free L" "bnd_free L" and X: "grp_free X" "bnd_free X"
  shows "re_search (cat [Grp 1 L, star py_isspace, opt is_sep, star py_isspace, Grp 2 X]) t = None
           \<longleftrightarrow> (\<forall>i g. \<not> labelled_value (lang L) (lang X) (drop i t) g)"
    (is "?s = None \<longleftrightarrow> ?rhs")
proof
  assume n: "?s = None"
  show ?rhs
  proof (intro allI)
    fix i g
    define i' where "i' = min i (length t)"
    have d: "drop i t = drop i' t" by (simp add: i'_def min_def)
    have le: "i' \<le> length t" by (simp add: i'_def)
    then have "i' \<in> set [0..<Suc (length t)]" by auto
    with n have "match_at (cat [Grp 1 L, star py_isspace, opt is_sep, star py_isspace, Grp 2 X]) t i' False = None"
      unfolding re_search_def re_search_from_no_adv first_some_None_iff by blast
    then show "\<not> labelled_value (lang L) (lang X) (drop i t) g"
      unfolding labelled_match_at_None [OF L X le] d by blast
  qed
next
  assume r: ?rhs
  show "?s = None"
    unfolding re_search_def re_search_from_no_adv first_some_None_iff
  proof
    fix i assume "i \<in> set [0..<Suc (length t)]"
    then have le: "i \<le> length t" by auto
    from r show "match_at (cat [Grp 1 L, star py_isspace, opt is_sep, star py_isspace, Grp 2 X]) t i False = None"
      unfolding labelled_match_at_None [OF L X le] by blast
  qed
qed

lemma labelled_search_Some:
  assumes L: "grp_free L" "bnd_free L" and X: "grp_free X" "bnd_free X"
    and m: "re_search (cat [Grp 1 L, star py_isspace, opt is_sep, star py_isspace, Grp 2 X]) t = Some m"
  shows "m_start m \<le> length t
       \<and> labelled_value (lang L) (lang X) (drop (m_start m) t) (group t m 2)
       \<and> (\<forall>k g. k < m_start m \<longrightarrow> \<not> labelled_value (lang L) (lang X) (drop k t) g)"
proof -
  let ?R = "cat [Grp 1 L, star py_isspace, opt is_sep, star py_isspace, Grp 2 X]"
  from m first_some_upt_SomeD [of "\<lambda>i. match_at ?R t i False" 0 "Suc (length t)" m]
  obtain i where i: "i < Suc (length t)" "match_at ?R t i False = Some m"
    and least: "\<forall>k. 0 \<le> k \<and> k < i \<longrightarrow> match_at ?R t k False = None"
    unfolding re_search_def re_search_from_no_adv by blast
  from i have le: "i \<le> length t" by simp
  from labelled_match_at_Some [OF L X le i(2)]
  have s: "m_start m = i" and v: "labelled_value (lang L) (lang X) (drop i t) (group t m 2)"
    by simp_all
  have "\<forall>k g. k < i \<longrightarrow> \<not> labelled_value (lang L) (lang X) (drop k t) g"
  proof (intro allI impI)
    fix k g assume k: "k < i"
    with least have "match_at ?R t k False = None" by simp
    moreover from k le have "k \<le> length t" by simp
    ultimately show "\<not> labelled_value (lang L) (lang X) (drop k t) g"
      using labelled_match_at_None [OF L X] by blast
  qed
  with s v le show ?thesis by simp
qed

subsection \<open>The purpose of a hearing\<close>

lemma free_chr_ci [simp]: "grp_free (chr_ci c)" "bnd_free (chr_ci c)"
  by (simp_all add: chr_ci_def)

lemma free_lit_ci [simp]: "grp_free (lit_ci s)" "bnd_free (lit_ci s)"
  by (induction s) simp_all

lemma lang_lit_ci_lower:
  assumes "py_lower s = s'"
  shows "w \<in> lang (lit_ci s) \<longleftrightarrow> py_lower w = s'"
proof -
  have "length s' = length s" using assms by (auto simp: py_lower_def)
  moreover have "length (py_lower w) = length w" by (simp add: py_lower_def)
  ultimately show ?thesis unfolding lang_lit_ci assms by metis
qed

lemma lower_literals:
  "py_lower ''Purpose'' = ''purpose''" "py_lower ''Stage'' = ''stage''"
  "py_lower ''CNR'' = ''cnr''" "py_lower ''No'' = ''no''"
  by code_simp+

lemma purpose_label_lang:
  "lang (Or (lit_ci ''Purpose'') (lit_ci ''Stage'')) = purpose_labels"
  unfolding purpose_labels_def
  by (auto simp del: lit_ci_Cons simp: lang_lit_ci_lower [OF lower_literals(1)]
        lang_lit_ci_lower [OF lower_literals(2)])

lemma purpose_value_lang: "lang (Cls is_purpose_chr 3 (Some 60)) = purpose_values"
  unfolding purpose_values_def by auto

lemma lang_opt_dot: "w \<in> lang (opt is_dot) \<longleftrightarrow> w = [] \<or> w = ''.''"
proof (cases w)
  case Nil
  then show ?thesis by (simp add: opt_def)
next
  case (Cons x xs)
  then show ?thesis by (cases xs) (auto simp: opt_def is_dot_def)
qed

lemma cnr_label_lang:
  "lang (cat [lit_ci ''CNR'', star py_isspace, lit_ci ''No'', opt is_dot]) = cnr_labels"
proof -
  have "w \<in> lang (cat [lit_ci ''CNR'', star py_isspace, lit_ci ''No'', opt is_dot]) \<longleftrightarrow> w \<in> cnr_labels" for w
  proof -
    have "w \<in> lang (cat [lit_ci ''CNR'', star py_isspace, lit_ci ''No'', opt is_dot])
       \<longleftrightarrow> (\<exists>a ws b dot. w = a @ ws @ b @ dot \<and> a \<in> lang (lit_ci ''CNR'')
             \<and> ws \<in> lang (star py_isspace) \<and> b \<in> lang (lit_ci ''No'') \<and> dot \<in> lang (opt is_dot))"
      by (simp del: lit_ci_Cons) blast
    then show ?thesis
      unfolding cnr_labels_def lang_lit_ci_lower [OF lower_literals(3)]
        lang_lit_ci_lower [OF lower_literals(4)] lang_star lang_opt_dot
      by blast
  qed
  then show ?thesis by blast
qed

lemma cnr_value_lang: "lang (Cls is_alnum 16 (Some 16)) = cnr_values"
  unfolding cnr_values_def by auto

lemma find_purpose_None:
  "find_purpose w = None \<longleftrightarrow> (\<forall>i g. \<not> labelled_value purpose_labels purpose_values (drop i w) g)"
proof -
  have "re_search PURPOSE_RE w = None
          \<longleftrightarrow> (\<forall>i g. \<not> labelled_value purpose_labels purpose_values (drop i w) g)"
    unfolding PURPOSE_RE_def
    using labelled_search_None [of "Or (lit_ci ''Purpose'') (lit_ci ''Stage'')"
        "Cls is_purpose_chr 3 (Some 60)" w]
    unfolding purpose_label_lang purpose_value_lang by (simp del: lit_ci_Cons cat_Cons)
  then show ?thesis
    by (cases "re_search PURPOSE_RE w") (auto simp: find_purpose_def)
qed

lemma find_purpose_Some:
  assumes "find_purpose w = Some s"
  shows "\<exists>i g. labelled_value purpose_labels purpose_values (drop i w) g \<and> s = py_strip g
           \<and> (\<forall>k g'. k < i \<longrightarrow> \<not> labelled_value purpose_labels purpose_values (drop k w) g')"
proof -
  from assms obtain m where m: "re_search PURPOSE_RE w = Some m" and s: "s = py_strip (group w m 2)"
    by (auto simp: find_purpose_def split: option.splits)
  have "grp_free (Or (lit_ci ''Purpose'') (lit_ci ''Stage''))"
       "bnd_free (Or (lit_ci ''Purpose'') (lit_ci ''Stage''))"
       "grp_free (Cls is_purpose_chr 3 (Some 60))" "bnd_free (Cls is_purpose_chr 3 (Some 60))"
    by (simp_all del: lit_ci_Cons)
  from labelled_search_Some [OF this m [unfolded PURPOSE_RE_def]]
  have "labelled_value purpose_labels purpose_values (drop (m_start m) w) (group w m 2)
       \<and> (\<forall>k g. k < m_start m \<longrightarrow> \<not> labelled_value purpose_labels purpose_values (drop k w) g)"
    unfolding purpose_label_lang purpose_value_lang by simp
  with s show ?thesis by blast
qed

lemma py_slice_min: "py_slice a (min b (length t)) t = py_slice a b t"
  by (simp add: py_slice_def min_def)

lemma hearing_entry_date_match:
  "hearing_entry text (date_match p) =
     \<lparr>h_date = py_slice p (p + 10) text,
      h_purpose = find_purpose (py_slice (p - 60) (p + 90) text)\<rparr>"
proof -
  have a: "p + 10 + 80 = p + 90" by simp
  have g: "group text (date_match p) 1 = py_slice p (p + 10) text"
    by (simp add: group_def date_match_def)
  have w: "hearing_window text (date_match p) = py_slice (p - 60) (p + 90) text"
    unfolding hearing_window_def Let_def py_slice_min by (simp only: date_match_def rematch.simps a)
  show ?thesis unfolding hearing_entry_def g w ..
qed

lemma hearings_scan_lemma:
  "\<exists>ps. hearings (parse_case_status_html text) =
          map (\<lambda>p. \<lparr>h_date = py_slice p (p + 10) text,
                     h_purpose = find_purpose (py_slice (p - 60) (p + 90) text)\<rparr>) ps
      \<and> scan_order 0 ps
      \<and> (\<forall>p \<in> set ps. is_date_at text p)
      \<and> (\<forall>p. is_date_at text p \<longrightarrow> (\<exists>q \<in> set ps. q \<le> p \<and> p < q + 10))"
proof -
  from finditer_date_from [of 0 "text"] obtain ps where
    ps: "re_finditer DATE_RE text = map date_match ps" "scan_order 0 ps"
      "\<forall>p \<in> set ps. is_date_at text p"
      "\<forall>p. is_date_at text p \<longrightarrow> (\<exists>q \<in> set ps. q \<le> p \<and> p < q + 10)"
    unfolding re_finditer_def by auto
  have "hearings (parse_case_status_html text) =
          map (\<lambda>p. \<lparr>h_date = py_slice p (p + 10) text,
                     h_purpose = find_purpose (py_slice (p - 60) (p + 90) text)\<rparr>) ps"
    by (simp add: parse_case_status_html_def ps(1) comp_def hearing_entry_date_match)
  with ps(2,3,4) show ?thesis by blast
qed

text \<open>
  Claim C7 as stated fails where two occurrences of the date pattern overlap: the text
  below has one at position 0 and one at position 8, and one entry is recorded.
\<close>

theorem hearings_overlap_counterexample:
  "is_date_at ''12-34-5678-90-1234'' 0 \<and> is_date_at ''12-34-5678-90-1234'' 8
   \<and> hearings (parse_case_status_html ''12-34-5678-90-1234'')
        = [\<lparr>h_date = ''12-34-5678'', h_purpose = None\<rparr>]"
  by code_simp

text \<open>
  Claim C7, as the code has it. One entry is recorded per match of a scan from left to
  right that resumes where the last match ended: the recorded starts are in scan order
  and do not overlap, each is an occurrence of the date pattern, and every occurrence in
  the text begins inside a recorded match. Duplicates are kept. The purpose of an entry
  is sought in the window from 60 characters before the date to 80 after it only, and
  the entry is recorded with or without one: the purpose is absent when the window has
  no label Purpose or Stage (in any case) followed, after optional whitespace, an
  optional colon or dash and optional whitespace, by 3 to 60 characters of the purpose
  class; otherwise it is such a run after the leftmost label, trimmed.
\<close>

theorem hearings_one_per_scanned_date:
  "(\<exists>ps. hearings (parse_case_status_html t) =
          map (\<lambda>p. \<lparr>h_date = py_slice p (p + 10) t,
                     h_purpose = find_purpose (py_slice (p - 60) (p + 90) t)\<rparr>) ps
      \<and> scan_order 0 ps
      \<and> (\<forall>p \<in> set ps. is_date_at t p)
      \<and> (\<forall>p. is_date_at t p \<longrightarrow> (\<exists>q \<in> set ps. q \<le> p \<and> p < q + 10)))
   \<and> (\<forall>w. (find_purpose w = None
              \<longleftrightarrow> (\<forall>i g. \<not> labelled_value purpose_labels purpose_values (drop i w) g))
         \<and> (\<forall>s. find_purpose w = Some s \<longrightarrow>
               (\<exists>i g. labelled_value purpose_labels purpose_values (drop i w) g \<and> s = py_strip g
                  \<and> (\<forall>k g'. k < i \<longrightarrow> \<not> labelled_value purpose_labels purpose_values (drop k w) g'))))"
  using hearings_scan_lemma [of t] find_purpose_None find_purpose_Some by blast

theorem hearings_one_per_scanned_date_witness:
  "hearings (parse_case_status_html ''Next 05-03-2025 Purpose: Arguments; last 05-03-2025 #'')
     = [\<lparr>h_date = ''05-03-2025'', h_purpose = Some ''Arguments''\<rparr>,
        \<lparr>h_date = ''05-03-2025'', h_purpose = Some ''Arguments''\<rparr>]
   \<and> (\<exists>ps. map (\<lambda>p. \<lparr>h_date = py_slice p (p + 10) ''Next 05-03-2025 Purpose: Arguments; last 05-03-2025 #'',
                     h_purpose = find_purpose (py_slice (p - 60) (p + 90)
                        ''Next 05-03-2025 Purpose: Arguments; last 05-03-2025 #'')\<rparr>) ps
         = [\<lparr>h_date = ''05-03-2025'', h_purpose = Some ''Arguments''\<rparr>,
            \<lparr>h_date = ''05-03-2025'', h_purpose = Some ''Arguments''\<rparr>]
       \<and> scan_order 0 ps)"
proof -
  let ?t = "''Next 05-03-2025 Purpose: Arguments; last 05-03-2025 #''"
  have e: "hearings (parse_case_status_html ?t)
     = [\<lparr>h_date = ''05-03-2025'', h_purpose = Some ''Arguments''\<rparr>,
        \<lparr>h_date = ''05-03-2025'', h_purpose = Some ''Arguments''\<rparr>]"
    by code_simp
  from hearings_one_per_scanned_date [of ?t] obtain ps where
    a: "hearings (parse_case_status_html ?t) =
          map (\<lambda>p. \<lparr>h_date = py_slice p (p + 10) ?t,
                     h_purpose = find_purpose (py_slice (p - 60) (p + 90) ?t)\<rparr>) ps"
    and b: "scan_order 0 ps"
    by blast
  from a have c: "map (\<lambda>p. \<lparr>h_date = py_slice p (p + 10) ?t,
                     h_purpose = find_purpose (py_slice (p - 60) (p + 90) ?t)\<rparr>) ps
       = [\<lparr>h_date = ''05-03-2025'', h_purpose = Some ''Arguments''\<rparr>,
          \<lparr>h_date = ''05-03-2025'', h_purpose = Some ''Arguments''\<rparr>]"
    unfolding e by (rule sym)
  show ?thesis
    by (intro conjI exI [of _ ps]) (rule e, rule c, rule b)
qed

text \<open>
  Claim C3 fails on the code in its second half. The date of every entry has the shape
  DD-MM-YYYY, but a label followed by blanks only gives the purpose the empty string, not
  the absent value: the pattern takes three of the blanks as the purpose and the code
  trims them away. The input below is such a text.
\<close>

theorem hearing_purpose_empty_string:
  "hearings (parse_case_status_html ''01-01-2020 Stage    #'')
     = [\<lparr>h_date = ''01-01-2020'', h_purpose = Some ''''\<rparr>]"
  by code_simp

subsection \<open>The registry identifier\<close>

lemma alnum_not_space: "is_alnum c \<Longrightarrow> \<not> py_isspace c"
  by (auto simp: is_alnum_def is_alpha_def is_upper_az_def is_lower_az_def is_digit_def
        py_isspace_def Let_def)

lemma py_strip_id:
  assumes "g \<noteq> []" "\<not> py_isspace (hd g)" "\<not> py_isspace (last g)"
  shows "py_strip g = g"
proof -
  have 1: "dropWhile py_isspace g = g" using assms(2) by (simp add: dropWhile_eq_self_iff)
  have "hd (rev g) = last g" using assms(1) by (simp add: hd_rev)
  then have 2: "dropWhile py_isspace (rev g) = rev g"
    using assms(3) by (simp add: dropWhile_eq_self_iff)
  show ?thesis unfolding py_strip_def 1 2 by simp
qed

lemma cnr_value_strip:
  assumes "g \<in> cnr_values"
  shows "py_strip g = g"
proof -
  from assms have l: "length g = 16" and a: "list_all is_alnum g" by (simp_all add: cnr_values_def)
  from l have ne: "g \<noteq> []" by auto
  with a have "is_alnum (hd g)" "is_alnum (last g)" by (simp_all add: list_all_iff)
  then have "\<not> py_isspace (hd g)" "\<not> py_isspace (last g)" by (simp_all add: alnum_not_space)
  with ne show ?thesis by (intro py_strip_id)
qed

lemma cnr_free:
  "grp_free (cat [lit_ci ''CNR'', star py_isspace, lit_ci ''No'', opt is_dot])"
  "bnd_free (cat [lit_ci ''CNR'', star py_isspace, lit_ci ''No'', opt is_dot])"
  "grp_free (Cls is_alnum 16 (Some 16))" "bnd_free (Cls is_alnum 16 (Some 16))"
  by (simp_all del: lit_ci_Cons)

lemma cnr_None:
  "cnr (parse_case_status_html t) = None
     \<longleftrightarrow> (\<forall>i g. \<not> labelled_value cnr_labels cnr_values (drop i t) g)"
proof -
  have "re_search CNR_RE t = None
          \<longleftrightarrow> (\<forall>i g. \<not> labelled_value cnr_labels cnr_values (drop i t) g)"
    unfolding CNR_RE_def using labelled_search_None [OF cnr_free, of t]
    unfolding cnr_label_lang cnr_value_lang .
  then show ?thesis
    by (cases "re_search CNR_RE t") (auto simp: parse_case_status_html_def)
qed

lemma cnr_Some:
  assumes "cnr (parse_case_status_html t) = Some s"
  shows "\<exists>i. labelled_value cnr_labels cnr_values (drop i t) s
           \<and> (\<forall>k g. k < i \<longrightarrow> \<not> labelled_value cnr_labels cnr_values (drop k t) g)"
proof -
  from assms obtain m where m: "re_search CNR_RE t = Some m" and s: "s = py_strip (group t m 2)"
    by (auto simp: parse_case_status_html_def split: option.splits)
  from labelled_search_Some [OF cnr_free m [unfolded CNR_RE_def]]
  have v: "labelled_value cnr_labels cnr_values (drop (m_start m) t) (group t m 2)"
    and least: "\<forall>k g. k < m_start m \<longrightarrow> \<not> labelled_value cnr_labels cnr_values (drop k t) g"
    unfolding cnr_label_lang cnr_value_lang by simp_all
  from v have "group t m 2 \<in> cnr_values" unfolding labelled_value_def by blast
  from cnr_value_strip [OF this] s have "s = group t m 2" by simp
  with v least show ?thesis by blast
qed

lemma span_unique:
  assumes "list_all P ws" "xs = ws @ y" "y = [] \<or> \<not> P (hd y)"
  shows "ws = takeWhile P xs \<and> y = dropWhile P xs"
proof -
  from assms(1) have all: "\<forall>x \<in> set ws. P x" by (simp add: list_all_iff)
  from assms(3) have ty: "takeWhile P y = []" and dy: "dropWhile P y = y"
    by (cases y; simp)+
  have "takeWhile P xs = ws @ takeWhile P y"
    unfolding assms(2) using all by simp
  moreover have "dropWhile P xs = dropWhile P y"
    unfolding assms(2) using all by simp
  ultimately show ?thesis using ty dy by simp
qed

lemma length_3_conv: "length w = 3 \<longleftrightarrow> (\<exists>a b c. w = [a, b, c])"
  by (auto simp: numeral_eq_Suc length_Suc_conv)

lemma length_2_conv: "length w = 2 \<longleftrightarrow> (\<exists>a b. w = [a, b])"
  by (auto simp: numeral_eq_Suc length_Suc_conv)

lemma lower_n_not_space:
  assumes "py_lower_char c = CHR ''n''"
  shows "\<not> py_isspace c"
proof -
  have "\<not> py_isspace CHR ''n''" by (simp add: py_isspace_def ord_def)
  with assms py_isspace_lower [of c] show ?thesis by simp
qed

lemma space_chars [simp]:
  "py_isspace CHR '' ''" "\<not> py_isspace CHR '':''" "\<not> py_isspace CHR ''-''"
  "\<not> py_isspace CHR ''N''" "\<not> is_alnum CHR '':''"
  by (simp_all add: py_isspace_def is_alnum_def is_alpha_def is_upper_az_def is_lower_az_def
        is_digit_def ord_def)

lemma cnr_occurrence:
  assumes "ident \<in> cnr_values"
  shows "labelled_value cnr_labels cnr_values (''CNR No: '' @ ident @ post) ident"
proof -
  have lab: "''CNR No'' \<in> cnr_labels"
  proof -
    have "''CNR No'' = ''CNR'' @ '' '' @ ''No'' @ []" by simp
    moreover have "py_lower ''CNR'' = ''cnr''" "py_lower ''No'' = ''no''"
      by (rule lower_literals)+
    moreover have "list_all py_isspace '' ''" by simp
    ultimately show ?thesis unfolding cnr_labels_def by blast
  qed
  have "''CNR No: '' @ ident @ post = ''CNR No'' @ [] @ '':'' @ '' '' @ ident @ post" by simp
  moreover have "list_all py_isspace []" "list_all py_isspace '' ''" "'':'' \<in> {[], '':'', ''-''}"
    by simp_all
  ultimately show ?thesis
    unfolding labelled_value_def using lab assms by blast
qed

lemma cnr_capture_unique:
  assumes id: "ident \<in> cnr_values"
    and v: "labelled_value cnr_labels cnr_values (''CNR No: '' @ ident @ post) g"
  shows "g = ident"
proof -
  from id have il: "length ident = 16" and ia: "list_all is_alnum ident"
    by (simp_all add: cnr_values_def)
  from il obtain i0 irest where ident: "ident = i0 # irest" by (cases ident) auto
  with ia have i0: "\<not> py_isspace i0" by (simp add: alnum_not_space)
  from v obtain lab ws1 sep ws2 post' where
      d: "''CNR No: '' @ ident @ post = lab @ ws1 @ sep @ ws2 @ g @ post'"
      and lab: "lab \<in> cnr_labels" and w1: "list_all py_isspace ws1"
      and sep: "sep \<in> {[], '':'', ''-''}" and w2: "list_all py_isspace ws2" and g: "g \<in> cnr_values"
    unfolding labelled_value_def by blast
  from g have gl: "length g = 16" and ga: "list_all is_alnum g" by (simp_all add: cnr_values_def)
  from gl obtain g0 grest where gc: "g = g0 # grest" by (cases g) auto
  with ga have g0a: "is_alnum g0" by simp
  then have g0: "\<not> py_isspace g0" by (rule alnum_not_space)
  from lab obtain a ws b dot where l: "lab = a @ ws @ b @ dot"
      and a: "py_lower a = ''cnr''" and ws: "list_all py_isspace ws"
      and b: "py_lower b = ''no''" and dot: "dot = [] \<or> dot = ''.''"
    unfolding cnr_labels_def by blast
  from a have "length a = 3" by (metis length_map py_lower_def length_Cons list.size(3) numeral_3_eq_3)
  then obtain a1 a2 a3 where a': "a = [a1, a2, a3]" unfolding length_3_conv by blast
  from b have "length b = 2" by (metis length_map py_lower_def length_Cons list.size(3) numeral_2_eq_2)
  then obtain b1 b2 where b': "b = [b1, b2]" unfolding length_2_conv by blast
  from b b' have b1: "py_lower_char b1 = CHR ''n''" by (simp add: py_lower_def)
  \<comment> \<open>the label\<close>
  from d have d1: "'' No: '' @ ident @ post = ws @ (b @ dot @ ws1 @ sep @ ws2 @ g @ post')"
    unfolding l a' by auto
  have "b @ dot @ ws1 @ sep @ ws2 @ g @ post' = [] \<or> \<not> py_isspace (hd (b @ dot @ ws1 @ sep @ ws2 @ g @ post'))"
    unfolding b' using lower_n_not_space [OF b1] by simp
  from span_unique [OF ws d1 this]
  have d2: "b @ dot @ ws1 @ sep @ ws2 @ g @ post' = ''No: '' @ ident @ post" by simp
  then have d3: "dot @ ws1 @ sep @ ws2 @ g @ post' = '': '' @ ident @ post"
    unfolding b' by simp
  from dot d3 have dot': "dot = []" by auto
  with d3 have d4: "'': '' @ ident @ post = ws1 @ (sep @ ws2 @ g @ post')" by simp
  show ?thesis
  proof (cases "sep = []")
    case True
    with d4 have e: "'': '' @ ident @ post = (ws1 @ ws2) @ (g @ post')" by simp
    have "list_all py_isspace (ws1 @ ws2)" using w1 w2 by simp
    moreover have "g @ post' = [] \<or> \<not> py_isspace (hd (g @ post'))" using gc g0 by simp
    ultimately have "g @ post' = dropWhile py_isspace ('': '' @ ident @ post)"
      using span_unique [OF _ e] by blast
    then have "g0 = CHR '':''" unfolding gc by simp
    with g0a show ?thesis by simp
  next
    case False
    with sep have sc: "sep = '':'' \<or> sep = ''-''" by simp
    then have "sep @ ws2 @ g @ post' = [] \<or> \<not> py_isspace (hd (sep @ ws2 @ g @ post'))" by auto
    from span_unique [OF w1 d4 this]
    have d5: "sep @ ws2 @ g @ post' = '': '' @ ident @ post" by simp
    with sc have d6: "'' '' @ ident @ post = ws2 @ (g @ post')" by auto
    have "g @ post' = [] \<or> \<not> py_isspace (hd (g @ post'))" using gc g0 by simp
    from span_unique [OF w2 d6 this]
    have "g @ post' = ident @ post" unfolding ident using i0 by simp
    with gl il show ?thesis by simp
  qed
qed

lemma cnr_no_occurrence_at:
  assumes "k \<le> length t" "match_at CNR_RE t k False = None"
  shows "\<not> labelled_value cnr_labels cnr_values (drop k t) g"
  using labelled_match_at_None [OF cnr_free assms(1)] assms(2)
  unfolding CNR_RE_def cnr_label_lang cnr_value_lang by blast

lemma cnr_label_first:
  assumes t: "t = pre @ ''CNR No: '' @ ident @ post" and id: "ident \<in> cnr_values"
  shows "cnr (parse_case_status_html t) \<noteq> None"
    and "(\<forall>k g. k < length pre \<longrightarrow> \<not> labelled_value cnr_labels cnr_values (drop k t) g)
           \<Longrightarrow> cnr (parse_case_status_html t) = Some ident"
proof -
  have d: "drop (length pre) t = ''CNR No: '' @ ident @ post" unfolding t by simp
  have occ: "labelled_value cnr_labels cnr_values (drop (length pre) t) ident"
    unfolding d by (rule cnr_occurrence [OF id])
  then show ne: "cnr (parse_case_status_html t) \<noteq> None"
    unfolding cnr_None by blast
  assume first: "\<forall>k g. k < length pre \<longrightarrow> \<not> labelled_value cnr_labels cnr_values (drop k t) g"
  from ne obtain s where s: "cnr (parse_case_status_html t) = Some s" by blast
  from cnr_Some [OF s] obtain i where v: "labelled_value cnr_labels cnr_values (drop i t) s"
    and least: "\<forall>k g. k < i \<longrightarrow> \<not> labelled_value cnr_labels cnr_values (drop k t) g"
    by blast
  from least occ have "\<not> length pre < i" by blast
  moreover from first v have "\<not> i < length pre" by blast
  ultimately have "i = length pre" by simp
  with v d have "labelled_value cnr_labels cnr_values (''CNR No: '' @ ident @ post) s" by simp
  from cnr_capture_unique [OF id this] s
  show "cnr (parse_case_status_html t) = Some ident" by simp
qed

lemma upper_alnum_is_alnum: "is_upper_alnum c \<Longrightarrow> is_alnum c"
  by (auto simp: is_upper_alnum_def is_alnum_def is_alpha_def)

lemma cnr_upper_values_subset: "g \<in> cnr_upper_values \<Longrightarrow> g \<in> cnr_values"
  by (auto simp: cnr_upper_values_def cnr_values_def list_all_iff upper_alnum_is_alnum)

lemma cnr_values_unbroken: "g \<in> cnr_values \<Longrightarrow> g \<in> cnr_unbroken_values"
  by (auto simp: cnr_unbroken_values_def cnr_values_def list_all_iff alnum_not_space)

lemma labelled_value_mono:
  assumes "labelled_value labels vals s g" "\<And>x. x \<in> vals \<Longrightarrow> x \<in> vals'"
  shows "labelled_value labels vals' s g"
  using assms unfolding labelled_value_def by blast

lemma cnr_label_head:
  assumes "labelled_value cnr_labels vals s g"
  shows "s \<noteq> [] \<and> py_lower_char (hd s) = CHR ''c''"
proof -
  from assms obtain lab rest where s: "s = lab @ rest" and lab: "lab \<in> cnr_labels"
    unfolding labelled_value_def by blast
  from lab obtain a rest' where l: "lab = a @ rest'" and a: "py_lower a = ''cnr''"
    unfolding cnr_labels_def by blast
  from a have "length a = 3" by (metis length_map py_lower_def length_3_conv)
  then obtain x y z where xyz: "a = [x, y, z]" unfolding length_3_conv by blast
  with a have "py_lower_char x = CHR ''c''" by (simp add: py_lower_def)
  with s l xyz show ?thesis by simp
qed

text \<open>
  The class written \<^verbatim>\<open>[A-Z0-9]\<close> is compiled with \<^verbatim>\<open>re.I\<close> and so takes lower-case letters
  as well. The statements about the registry identifier below promise an identifier for
  upper-case letters and digits only, and leave the others open.
\<close>

lemma cnr_lower_case_taken:
  "cnr (parse_case_status_html ''CNR No: abcdefgh12345678'') = Some ''abcdefgh12345678''"
  by code_simp




section \<open>The listing decision\<close>

lemma match_step_unrequested:
  "\<not> today \<Longrightarrow> fst (snd (match_step entries case_key today tomorrow)) = None"
  "\<not> tomorrow \<Longrightarrow> snd (snd (match_step entries case_key today tomorrow)) = None"
  by (simp_all add: match_step_def split: option.splits)

lemma match_step_today_None:
  "today \<Longrightarrow> fst (snd (match_step entries case_key today tomorrow)) = None
     \<longleftrightarrow> \<not> (entries \<noteq> [] \<and> truthy case_key)"
  by (auto simp: match_step_def truthy_def split: option.splits)

lemma match_step_tomorrow_None:
  "tomorrow \<Longrightarrow> snd (snd (match_step entries case_key today tomorrow)) = None
     \<longleftrightarrow> \<not> (entries \<noteq> [] \<and> truthy case_key)"
  by (auto simp: match_step_def truthy_def split: option.splits)

lemma resolve_listing_today:
  "is_listed_today (resolve_listing overview entries case_key today tomorrow clock0 clock1) =
     (case fst (snd (match_step entries case_key today tomorrow)) of
        Some b \<Rightarrow> Some b
      | None \<Rightarrow> (case overview of
                   Some ov \<Rightarrow> if today
                     then Some (is_date_in_hearings (hearings ov) (date_str_ist clock0 0)) else None
                 | None \<Rightarrow> None))"
  by (cases "match_step entries case_key today tomorrow")
     (auto simp: resolve_listing_def split: option.splits)

lemma resolve_listing_tomorrow:
  "is_listed_tomorrow (resolve_listing overview entries case_key today tomorrow clock0 clock1) =
     (case snd (snd (match_step entries case_key today tomorrow)) of
        Some b \<Rightarrow> Some b
      | None \<Rightarrow> (case overview of
                   Some ov \<Rightarrow> if tomorrow
                     then Some (is_date_in_hearings (hearings ov) (date_str_ist clock1 1)) else None
                 | None \<Rightarrow> None))"
  by (cases "match_step entries case_key today tomorrow")
     (auto simp: resolve_listing_def split: option.splits)

lemma resolve_listing_details:
  "details (resolve_listing overview entries case_key today tomorrow clock0 clock1) =
     fst (match_step entries case_key today tomorrow)"
  by (cases "match_step entries case_key today tomorrow")
     (auto simp: resolve_listing_def split: option.splits)

text \<open>
  Claim C2, as the code has it. A flag that was not requested is absent. A requested flag
  is absent exactly when there is no case overview and the matcher could not run, that
  is, the schedule rows or the identifier are missing; with an overview, or with both
  rows and identifier, every requested flag is resolved to true or false.
\<close>

theorem listing_absent_iff:
  "(is_listed_today (resolve_listing overview entries case_key today tomorrow clock0 clock1) = None
      \<longleftrightarrow> \<not> today \<or> (overview = None \<and> \<not> (entries \<noteq> [] \<and> truthy case_key)))
   \<and> (is_listed_tomorrow (resolve_listing overview entries case_key today tomorrow clock0 clock1) = None
      \<longleftrightarrow> \<not> tomorrow \<or> (overview = None \<and> \<not> (entries \<noteq> [] \<and> truthy case_key)))"
proof (intro conjI)
  show "is_listed_today (resolve_listing overview entries case_key today tomorrow clock0 clock1) = None
      \<longleftrightarrow> \<not> today \<or> (overview = None \<and> \<not> (entries \<noteq> [] \<and> truthy case_key))"
  proof (cases today)
    case True
    from match_step_today_None [OF True, of entries case_key tomorrow] show ?thesis
      unfolding resolve_listing_today using True
      by (cases "fst (snd (match_step entries case_key today tomorrow))"; cases overview) auto
  next
    case False
    with match_step_unrequested(1) [of today entries case_key tomorrow] show ?thesis
      unfolding resolve_listing_today by (simp split: option.splits)
  qed
  show "is_listed_tomorrow (resolve_listing overview entries case_key today tomorrow clock0 clock1) = None
      \<longleftrightarrow> \<not> tomorrow \<or> (overview = None \<and> \<not> (entries \<noteq> [] \<and> truthy case_key))"
  proof (cases tomorrow)
    case True
    from match_step_tomorrow_None [OF True, of entries case_key today] show ?thesis
      unfolding resolve_listing_tomorrow using True
      by (cases "snd (snd (match_step entries case_key today tomorrow))"; cases overview) auto
  next
    case False
    with match_step_unrequested(2) [of tomorrow entries case_key today] show ?thesis
      unfolding resolve_listing_tomorrow by (simp split: option.splits)
  qed
qed

text \<open>
  Claim C2 as stated fails: with an identifier, no schedule rows and no overview, both
  requested flags stay absent although an input was present.
\<close>

theorem listing_absent_counterexample:
  "is_listed_today (resolve_listing None [] (Some ''OS 45/2023'') True True 1741113000 1741113000) = None
   \<and> is_listed_tomorrow (resolve_listing None [] (Some ''OS 45/2023'') True True 1741113000 1741113000) = None
   \<and> Some ''OS 45/2023'' \<noteq> None"
  by (simp add: resolve_listing_def match_step_def)

theorem listing_absent_iff_witness:
  "is_listed_today (resolve_listing None [] (Some ''OS 45/2023'') True False 0 0) = None
   \<and> is_listed_tomorrow (resolve_listing None [] (Some ''OS 45/2023'') True False 0 0) = None"
  using listing_absent_iff [of None "[]" "Some ''OS 45/2023''" True False 0 0]
  by simp

text \<open>
  Claim C5. With schedule rows and an identifier the resolver runs the matcher. On a
  match, the details are the matched row's serial, court, case text and purpose, and each
  flag is true if requested and absent otherwise. Without a match, each requested flag is
  false, the other absent, and the details are absent.
\<close>

theorem resolve_listing_schedule_match:
  assumes "entries \<noteq> []" and "k \<noteq> []"
  shows "(find_case_in_cause_list entries k = Some matched \<longrightarrow>
            resolve_listing overview entries (Some k) today tomorrow clock0 clock1 =
              \<lparr>is_listed_today = (if today then Some True else None),
               is_listed_tomorrow = (if tomorrow then Some True else None),
               details = Some \<lparr>d_serial = serial matched, d_court = court_info matched,
                               d_case_text = case_text matched, d_purpose = purpose matched\<rparr>\<rparr>)
       \<and> (find_case_in_cause_list entries k = None \<longrightarrow>
            resolve_listing overview entries (Some k) today tomorrow clock0 clock1 =
              \<lparr>is_listed_today = (if today then Some False else None),
               is_listed_tomorrow = (if tomorrow then Some False else None),
               details = None\<rparr>)"
  using assms
  by (cases overview) (simp_all add: resolve_listing_def match_step_def)

theorem resolve_listing_schedule_match_witness:
  "resolve_listing None [row_of ''12'' [''12'', ''OS 45/2023'', ''Evidence'']] (Some ''OS 45/2023'')
       True False 0 0 =
     \<lparr>is_listed_today = Some True, is_listed_tomorrow = None,
      details = Some \<lparr>d_serial = ''12'', d_court = None,
                      d_case_text = Some ''OS 45/2023'', d_purpose = None\<rparr>\<rparr>
   \<and> resolve_listing None [row_of ''12'' [''12'', ''OS 45/2023'', ''Evidence'']] (Some ''OS 999/2023'')
       True True 0 0 =
     \<lparr>is_listed_today = Some False, is_listed_tomorrow = Some False, details = None\<rparr>"
proof -
  let ?r = "row_of ''12'' [''12'', ''OS 45/2023'', ''Evidence'']"
  have r: "?r = \<lparr>serial = ''12'', case_text = Some ''OS 45/2023'', purpose = None,
                  court_info = None, raw_cells = [''12'', ''OS 45/2023'', ''Evidence'']\<rparr>"
    by code_simp
  have ne: "[?r] \<noteq> []" "''OS 45/2023'' \<noteq> []" "''OS 999/2023'' \<noteq> []" by simp_all
  have m: "find_case_in_cause_list [?r] ''OS 45/2023'' = Some ?r" by code_simp
  have n: "find_case_in_cause_list [?r] ''OS 999/2023'' = None" by code_simp
  from resolve_listing_schedule_match [OF ne(1) ne(2), of ?r None True False 0 0] m
  have 1: "resolve_listing None [?r] (Some ''OS 45/2023'') True False 0 0 =
     \<lparr>is_listed_today = Some True, is_listed_tomorrow = None,
      details = Some \<lparr>d_serial = serial ?r, d_court = court_info ?r,
                      d_case_text = case_text ?r, d_purpose = purpose ?r\<rparr>\<rparr>"
    by simp
  from resolve_listing_schedule_match [OF ne(1) ne(3), of undefined None True True 0 0] n
  have 2: "resolve_listing None [?r] (Some ''OS 999/2023'') True True 0 0 =
     \<lparr>is_listed_today = Some False, is_listed_tomorrow = Some False, details = None\<rparr>"
    by simp
  show ?thesis unfolding 1 2 by (simp add: r)
qed

lemma is_digit_digit_chr: "is_digit (digit_chr n)"
proof -
  have "0 \<le> n mod 10" "n mod 10 < 10" by simp_all
  then have "(48 + n mod 10) mod 256 = 48 + n mod 10" by simp
  then have "ord (digit_chr n) = 48 + n mod 10" by (simp add: ord_def digit_chr_def)
  then show ?thesis by (simp add: is_digit_def)
qed

lemma is_date_text_strftime: "is_date_text (strftime_dmy ymd)"
  by (cases ymd) (simp add: strftime_dmy_def pad2_def pad4_def is_date_text_def is_digit_digit_chr)

lemma date_str_ist_offset:
  "date_str_ist clock days =
     strftime_dmy (civil_from_days ((clock + 19800) div 86400 + days))"
  by (simp add: date_str_ist_def today_ist_def)

text \<open>
  Claim C9. With a case overview, a requested flag that the schedule-match step left
  absent is set to whether some hearing's date equals the day (for today) or the next day
  (for tomorrow) in UTC+5:30, rendered as DD-MM-YYYY: the string compared has that shape,
  and it is the calendar date of the day that holds the clock reading moved on by 19800
  seconds (5 hours 30 minutes), or of the day after. The instance below: one hearing on
  05-03-2025, the clock at 2025-03-04 18:30:00 UTC, which is midnight of 05-03-2025 in
  UTC+5:30, today requested.
\<close>

theorem resolve_listing_hearing_fallback:
  assumes "overview = Some ov"
  shows "(today \<and> fst (snd (match_step entries case_key today tomorrow)) = None \<longrightarrow>
            is_listed_today (resolve_listing overview entries case_key today tomorrow clock0 clock1)
              = Some (\<exists>h \<in> set (hearings ov). h_date h = date_str_ist clock0 0))
       \<and> (tomorrow \<and> snd (snd (match_step entries case_key today tomorrow)) = None \<longrightarrow>
            is_listed_tomorrow (resolve_listing overview entries case_key today tomorrow clock0 clock1)
              = Some (\<exists>h \<in> set (hearings ov). h_date h = date_str_ist clock1 1))
       \<and> is_date_text (date_str_ist clock0 0) \<and> is_date_text (date_str_ist clock1 1)
       \<and> date_str_ist clock0 0 = strftime_dmy (civil_from_days ((clock0 + 19800) div 86400))
       \<and> date_str_ist clock1 1 = strftime_dmy (civil_from_days ((clock1 + 19800) div 86400 + 1))"
proof -
  have "is_date_text (date_str_ist clock0 0)" "is_date_text (date_str_ist clock1 1)"
    unfolding date_str_ist_def by (rule is_date_text_strftime)+
  moreover have "date_str_ist clock0 0 = strftime_dmy (civil_from_days ((clock0 + 19800) div 86400))"
    "date_str_ist clock1 1 = strftime_dmy (civil_from_days ((clock1 + 19800) div 86400 + 1))"
    by (simp_all add: date_str_ist_offset)
  ultimately show ?thesis
    using assms
    by (auto simp: resolve_listing_today resolve_listing_tomorrow is_date_in_hearings_def list_ex_iff)
qed

theorem resolve_listing_hearing_fallback_witness:
  "date_str_ist 1741113000 0 = ''05-03-2025''
   \<and> is_listed_today (resolve_listing
        (Some \<lparr>cnr = None, case_number = None, court_name = None,
               hearings = [\<lparr>h_date = ''05-03-2025'', h_purpose = Some ''Arguments''\<rparr>]\<rparr>)
        [] None True False 1741113000 1741113000) = Some True"
proof -
  let ?ov = "\<lparr>cnr = None, case_number = None, court_name = None,
               hearings = [\<lparr>h_date = ''05-03-2025'', h_purpose = Some ''Arguments''\<rparr>]\<rparr>"
  have d: "date_str_ist 1741113000 0 = ''05-03-2025''" by code_simp
  have ms: "fst (snd (match_step [] None True False)) = None" by (simp add: match_step_def)
  from resolve_listing_hearing_fallback [of "Some ?ov" ?ov True "[]" None False 1741113000 1741113000] ms
  have "is_listed_today (resolve_listing (Some ?ov) [] None True False 1741113000 1741113000)
          = Some (\<exists>h \<in> set (hearings ?ov). h_date h = date_str_ist 1741113000 0)"
    by simp
  then show ?thesis by (simp add: d)
qed

end
